theory Spec2Isabelle
  imports Main
begin

section \<open>Data model of \<open>include/Analysis/ControlDependenceGraph.h\<close>\<close>

text \<open>
  Pointers are modelled with an explicit null: a \<open>BasicBlock *\<close> is the identity (address)
  of a block or \<open>NULL\<close>, a \<open>ControlDependenceNode *\<close> is the address of a node or \<open>NULL\<close>.
\<close>

datatype 'a ptr = NULL | Ptr 'a

type_synonym BasicBlock = nat

type_synonym node_ref = nat

datatype EdgeType = TRUE | FALSE | OTHER

text \<open>
  \<open>class ControlDependenceNode\<close>: the block pointer and the four vectors of node pointers.
\<close>

record ControlDependenceNode =
  TheBB :: "BasicBlock ptr"
  Parents :: "node_ref list"
  TrueChildren :: "node_ref list"
  FalseChildren :: "node_ref list"
  OtherChildren :: "node_ref list"

definition getBlock :: "ControlDependenceNode \<Rightarrow> BasicBlock ptr" where
  "getBlock n = TheBB n"

definition getNumParents :: "ControlDependenceNode \<Rightarrow> nat" where
  "getNumParents n = length (Parents n)"

definition getNumChildren :: "ControlDependenceNode \<Rightarrow> nat" where
  "getNumChildren n =
     length (TrueChildren n) + length (FalseChildren n) + length (OtherChildren n)"

definition isRegion :: "ControlDependenceNode \<Rightarrow> bool" where
  "isRegion n = (TheBB n = NULL)"

text \<open>
  \<open>class ControlDependenceGraph\<close>: \<open>root\<close>, the vector \<open>nodes\<close> of owned node pointers and
  the index \<open>bbMap\<close>. The graph owns every node it points to, so the store is kept with
  the vector: each entry of \<open>nodes\<close> is the pointer together with the object it points
  to. \<open>std::map\<close> is an association list in key order with one entry per key.
\<close>

record ControlDependenceGraph =
  root :: "node_ref ptr"
  nodes :: "(node_ref \<times> ControlDependenceNode) list"
  bbMap :: "(BasicBlock \<times> node_ref ptr) list"

subsection \<open>\<open>std::map\<close> lookups\<close>

text \<open>
  \<open>m.find(k)\<close> is \<open>map_of m k\<close> (\<open>None\<close> for \<open>m.end()\<close>). \<open>m[k]\<close> returns the mapped value
  of an existing key and otherwise inserts the key with a value-initialised mapped
  value, which is the null pointer for a pointer type, and returns that.
\<close>

definition map_subscript ::
  "(BasicBlock \<times> 'v ptr) list \<Rightarrow> BasicBlock \<Rightarrow> 'v ptr \<times> (BasicBlock \<times> 'v ptr) list" where
  "map_subscript m k =
     (case map_of m k of
        Some v \<Rightarrow> (v, m)
      | None \<Rightarrow> (NULL, insort_key fst (k, NULL) m))"

text \<open>
  The non-const \<open>getNode\<close> is \<open>return bbMap[BB];\<close>. It is a state transformer: it returns
  the pointer and the graph after the call.
\<close>

definition getNode ::
  "ControlDependenceGraph \<Rightarrow> BasicBlock \<Rightarrow> node_ref ptr \<times> ControlDependenceGraph" where
  "getNode g BB =
     (case map_subscript (bbMap g) BB of (p, m') \<Rightarrow> (p, g\<lparr>bbMap := m'\<rparr>))"

text \<open>
  The const \<open>getNode\<close> is
  \<open>return (bbMap.find(BB) != bbMap.end()) ? bbMap.find(BB)->second : NULL;\<close>.
  Written in the same state-passing form, so that its effect on the graph can be stated.
\<close>

definition getNode_const ::
  "ControlDependenceGraph \<Rightarrow> BasicBlock \<Rightarrow> node_ref ptr \<times> ControlDependenceGraph" where
  "getNode_const g BB =
     ((if map_of (bbMap g) BB \<noteq> None then the (map_of (bbMap g) BB) else NULL), g)"

definition subscript ::
  "ControlDependenceGraph \<Rightarrow> BasicBlock \<Rightarrow> node_ref ptr \<times> ControlDependenceGraph" where
  "subscript g BB = getNode g BB"

definition subscript_const ::
  "ControlDependenceGraph \<Rightarrow> BasicBlock \<Rightarrow> node_ref ptr \<times> ControlDependenceGraph" where
  "subscript_const g BB = getNode_const g BB"

definition getRoot :: "ControlDependenceGraph \<Rightarrow> node_ref ptr" where
  "getRoot g = root g"

section \<open>Lookups of blocks that are not in the index\<close>

lemma map_of_insort_key_fst:
  "map_of m k = None \<Longrightarrow> map_of (insort_key fst (k, v) m) k' = (if k' = k then Some v else map_of m k')"
  by (induction m) (auto split: if_splits)

text \<open>
  C5. For a block that is absent from the block-to-node index, both \<open>getNode\<close> overloads
  and both \<open>operator[]\<close> overloads return the null pointer.
\<close>

theorem getNode_absent_NULL:
  assumes "map_of (bbMap g) B = None"
  shows "fst (getNode g B) = NULL \<and> fst (getNode_const g B) = NULL
       \<and> fst (subscript g B) = NULL \<and> fst (subscript_const g B) = NULL"
  using assms
  by (simp add: getNode_def getNode_const_def subscript_def subscript_const_def map_subscript_def)

theorem getNode_absent_NULL_witness:
  "map_of (bbMap \<lparr>root = Ptr 0, nodes = [], bbMap = [(1, Ptr 5), (4, Ptr 6)]\<rparr>) 3 = None
   \<and> fst (getNode \<lparr>root = Ptr 0, nodes = [], bbMap = [(1, Ptr 5), (4, Ptr 6)]\<rparr> 3) = NULL
   \<and> fst (getNode_const \<lparr>root = Ptr 0, nodes = [], bbMap = [(1, Ptr 5), (4, Ptr 6)]\<rparr> 3) = NULL"
  using getNode_absent_NULL [of "\<lparr>root = Ptr 0, nodes = [], bbMap = [(1, Ptr 5), (4, Ptr 6)]\<rparr>" 3]
  by simp

text \<open>
  C10. For a block that is absent from the index, the non-const \<open>getNode\<close> (and the
  non-const \<open>operator[]\<close>) returns the null pointer and leaves a graph whose index has
  exactly one entry more, the block mapped to the null pointer, with \<open>root\<close> and \<open>nodes\<close>
  as before; the const \<open>getNode\<close> (and the const \<open>operator[]\<close>) returns the null pointer
  and the graph it was given.
\<close>

theorem getNode_absent_inserts:
  assumes "map_of (bbMap g) B = None"
  shows "fst (getNode g B) = NULL
       \<and> length (bbMap (snd (getNode g B))) = Suc (length (bbMap g))
       \<and> set (bbMap (snd (getNode g B))) = insert (B, NULL) (set (bbMap g))
       \<and> map_of (bbMap (snd (getNode g B))) B = Some NULL
       \<and> (\<forall>b. b \<noteq> B \<longrightarrow> map_of (bbMap (snd (getNode g B))) b = map_of (bbMap g) b)
       \<and> root (snd (getNode g B)) = root g \<and> nodes (snd (getNode g B)) = nodes g
       \<and> subscript g B = getNode g B
       \<and> getNode_const g B = (NULL, g) \<and> subscript_const g B = (NULL, g)"
  using assms
  by (simp add: getNode_def getNode_const_def subscript_def subscript_const_def
      map_subscript_def map_of_insort_key_fst set_insort_key)

theorem getNode_absent_inserts_witness:
  "map_of (bbMap \<lparr>root = Ptr 0, nodes = [], bbMap = [(1, Ptr 5), (4, Ptr 6)]\<rparr>) 3 = None
   \<and> getNode \<lparr>root = Ptr 0, nodes = [], bbMap = [(1, Ptr 5), (4, Ptr 6)]\<rparr> 3
       = (NULL, \<lparr>root = Ptr 0, nodes = [], bbMap = [(1, Ptr 5), (3, NULL), (4, Ptr 6)]\<rparr>)
   \<and> getNode_const \<lparr>root = Ptr 0, nodes = [], bbMap = [(1, Ptr 5), (4, Ptr 6)]\<rparr> 3
       = (NULL, \<lparr>root = Ptr 0, nodes = [], bbMap = [(1, Ptr 5), (4, Ptr 6)]\<rparr>)"
  using getNode_absent_inserts [of "\<lparr>root = Ptr 0, nodes = [], bbMap = [(1, Ptr 5), (4, Ptr 6)]\<rparr>" 3]
  by (simp add: getNode_def map_subscript_def)

section \<open>\<open>ControlDependenceNode::edge_iterator\<close>\<close>

text \<open>
  The iterator holds the node, the stage and two vector iterators \<open>it\<close> and \<open>end\<close> into
  the child vector of the stage; a vector iterator is the position in its vector
  (\<open>begin()\<close> is 0, \<open>end()\<close> is the length). The node is held by value: iterating does
  not change it.
\<close>

record edge_iterator =
  node :: ControlDependenceNode
  stage :: EdgeType
  it :: nat
  end_it :: nat

definition children_of :: "EdgeType \<Rightarrow> ControlDependenceNode \<Rightarrow> node_ref list" where
  "children_of t n = (case t of TRUE \<Rightarrow> TrueChildren n | FALSE \<Rightarrow> FalseChildren n | OTHER \<Rightarrow> OtherChildren n)"

text \<open>
  The loop of \<open>operator++\<close>:
  \<open>while ((stage != OTHER) && (it == end))\<close> moves to the next child vector.
\<close>

function advance_stage :: "edge_iterator \<Rightarrow> edge_iterator" where
  "advance_stage i =
     (if stage i \<noteq> OTHER \<and> it i = end_it i then
        (if stage i = TRUE
         then advance_stage (i\<lparr>it := 0, end_it := length (FalseChildren (node i)), stage := FALSE\<rparr>)
         else advance_stage (i\<lparr>it := 0, end_it := length (OtherChildren (node i)), stage := OTHER\<rparr>))
      else i)"
  by pat_completeness auto
termination
  by (relation "measure (\<lambda>i. case stage i of TRUE \<Rightarrow> 2 | FALSE \<Rightarrow> 1 | OTHER \<Rightarrow> 0)")
     (auto split: EdgeType.splits)

declare advance_stage.simps [simp del]

text \<open>\<open>operator++()\<close>: \<open>if (it != end) ++it;\<close> followed by the loop.\<close>

definition pre_increment :: "edge_iterator \<Rightarrow> edge_iterator" where
  "pre_increment i = advance_stage (if it i \<noteq> end_it i then i\<lparr>it := it i + 1\<rparr> else i)"

lemma advance_stage_settled:
  "stage (advance_stage i) = OTHER \<or> it (advance_stage i) \<noteq> end_it (advance_stage i)"
  by (induction i rule: advance_stage.induct) (subst (1 2 3) advance_stage.simps, auto)

text \<open>
  Both constructors run \<open>while ((stage != OTHER) && (it == end)) this->operator++();\<close>
  on the initial fields.
\<close>

function edge_iterator_init :: "edge_iterator \<Rightarrow> edge_iterator" where
  "edge_iterator_init i =
     (if stage i \<noteq> OTHER \<and> it i = end_it i then edge_iterator_init (pre_increment i) else i)"
  by pat_completeness auto
termination
  apply (relation "measure (\<lambda>i. if stage i \<noteq> OTHER \<and> it i = end_it i then 1 else 0)")
  using advance_stage_settled
  apply (auto simp: pre_increment_def)
  done


declare edge_iterator_init.simps [simp del]

definition edge_begin :: "ControlDependenceNode \<Rightarrow> edge_iterator" where
  "edge_begin n =
     edge_iterator_init \<lparr>node = n, stage = TRUE, it = 0, end_it = length (TrueChildren n)\<rparr>"

definition edge_end :: "ControlDependenceNode \<Rightarrow> edge_iterator" where
  "edge_end n =
     edge_iterator_init \<lparr>node = n, stage = OTHER, it = length (OtherChildren n),
                         end_it = length (OtherChildren n)\<rparr>"

definition edge_type :: "edge_iterator \<Rightarrow> EdgeType" where
  "edge_type i = stage i"

text \<open>
  \<open>operator==\<close> compares the stages and the vector iterators \<open>it\<close>. The definition is
  for two iterators of one node, which is what a traversal of a node compares: there
  equal stages mean the same child vector, and the vector iterators are equal exactly
  when the positions are. It does not tell apart iterators of two different nodes.
\<close>

definition iter_eq :: "edge_iterator \<Rightarrow> edge_iterator \<Rightarrow> bool" where
  "iter_eq i other = (stage i = stage other \<and> it i = it other)"

definition deref :: "edge_iterator \<Rightarrow> node_ref" where
  "deref i = children_of (stage i) (node i) ! it i"

text \<open>
  The traversal \<open>for (i = N->begin(); i != N->end(); ++i)\<close>, collecting \<open>i.type()\<close> and
  \<open>*i\<close> at every position. \<open>None\<close> stands for a traversal that does not return.
\<close>

partial_function (option) visit_edges ::
  "edge_iterator \<Rightarrow> edge_iterator \<Rightarrow> (EdgeType \<times> node_ref) list option" where
  "visit_edges i e =
     (if iter_eq i e then Some []
      else Option.bind (visit_edges (pre_increment i) e) (\<lambda>r. Some ((edge_type i, deref i) # r)))"

definition edges_of :: "ControlDependenceNode \<Rightarrow> (EdgeType \<times> node_ref) list option" where
  "edges_of n = visit_edges (edge_begin n) (edge_end n)"


lemma advance_stage_other: "stage i = OTHER \<Longrightarrow> advance_stage i = i"
  by (subst advance_stage.simps) simp

lemma advance_stage_inside: "it i \<noteq> end_it i \<Longrightarrow> advance_stage i = i"
  by (subst advance_stage.simps) simp

lemma edge_iterator_init_eq: "edge_iterator_init i = advance_stage i"
proof (cases "stage i \<noteq> OTHER \<and> it i = end_it i")
  case True
  have "\<not> (stage (advance_stage i) \<noteq> OTHER \<and> it (advance_stage i) = end_it (advance_stage i))"
    using advance_stage_settled [of i] by blast
  then have "edge_iterator_init (advance_stage i) = advance_stage i"
    by (subst edge_iterator_init.simps) (simp only: if_False)
  moreover have "pre_increment i = advance_stage i"
    using True by (simp add: pre_increment_def)
  ultimately show ?thesis
    using True by (subst edge_iterator_init.simps) simp
next
  case False
  then show ?thesis
    by (subst edge_iterator_init.simps, subst advance_stage.simps) auto
qed

lemma edge_end_eq:
  "edge_end n = \<lparr>node = n, stage = OTHER, it = length (OtherChildren n),
                  end_it = length (OtherChildren n)\<rparr>"
  by (simp add: edge_end_def edge_iterator_init_eq advance_stage_other)

lemma edge_end_sel:
  "stage (edge_end n) = OTHER" "it (edge_end n) = length (OtherChildren n)"
  by (simp_all add: edge_end_eq)

lemma visit_other:
  "k \<le> length (OtherChildren n) \<Longrightarrow>
   visit_edges \<lparr>node = n, stage = OTHER, it = k, end_it = length (OtherChildren n)\<rparr> (edge_end n)
     = Some (map (Pair OTHER) (drop k (OtherChildren n)))"
proof (induction "length (OtherChildren n) - k" arbitrary: k)
  case 0
  then show ?case
    by (subst visit_edges.simps) (simp add: iter_eq_def edge_end_sel)
next
  case (Suc d)
  then have lt: "k < length (OtherChildren n)" by simp
  have step: "pre_increment \<lparr>node = n, stage = OTHER, it = k, end_it = length (OtherChildren n)\<rparr>
        = \<lparr>node = n, stage = OTHER, it = Suc k, end_it = length (OtherChildren n)\<rparr>"
    using lt by (simp add: pre_increment_def advance_stage_other)
  have ih: "visit_edges \<lparr>node = n, stage = OTHER, it = Suc k, end_it = length (OtherChildren n)\<rparr>
              (edge_end n) = Some (map (Pair OTHER) (drop (Suc k) (OtherChildren n)))"
    using Suc lt by simp
  show ?case
    using lt
    by (subst visit_edges.simps)
       (simp add: step ih iter_eq_def edge_end_sel edge_type_def deref_def children_of_def
          Cons_nth_drop_Suc [symmetric])
qed

lemma visit_false:
  "k \<le> length (FalseChildren n) \<Longrightarrow>
   visit_edges (advance_stage \<lparr>node = n, stage = FALSE, it = k, end_it = length (FalseChildren n)\<rparr>)
      (edge_end n)
     = Some (map (Pair FALSE) (drop k (FalseChildren n)) @ map (Pair OTHER) (OtherChildren n))"
proof (induction "length (FalseChildren n) - k" arbitrary: k)
  case 0
  then have "advance_stage \<lparr>node = n, stage = FALSE, it = k, end_it = length (FalseChildren n)\<rparr>
      = \<lparr>node = n, stage = OTHER, it = 0, end_it = length (OtherChildren n)\<rparr>"
    by (subst advance_stage.simps) (simp add: advance_stage_other)
  then show ?case
    using 0 visit_other [of 0 n] by simp
next
  case (Suc d)
  then have lt: "k < length (FalseChildren n)" by simp
  let ?i = "\<lparr>node = n, stage = FALSE, it = k, end_it = length (FalseChildren n)\<rparr>"
  have same: "advance_stage ?i = ?i"
    using lt by (simp add: advance_stage_inside)
  have step: "pre_increment ?i
        = advance_stage \<lparr>node = n, stage = FALSE, it = Suc k, end_it = length (FalseChildren n)\<rparr>"
    using lt by (simp add: pre_increment_def)
  have ih: "visit_edges (advance_stage \<lparr>node = n, stage = FALSE, it = Suc k,
                end_it = length (FalseChildren n)\<rparr>) (edge_end n)
            = Some (map (Pair FALSE) (drop (Suc k) (FalseChildren n))
                    @ map (Pair OTHER) (OtherChildren n))"
    using Suc lt by simp
  show ?case
    unfolding same using lt
    by (subst visit_edges.simps)
       (simp add: step ih iter_eq_def edge_end_sel edge_type_def deref_def children_of_def
          Cons_nth_drop_Suc [symmetric])
qed

lemma visit_true:
  "k \<le> length (TrueChildren n) \<Longrightarrow>
   visit_edges (advance_stage \<lparr>node = n, stage = TRUE, it = k, end_it = length (TrueChildren n)\<rparr>)
      (edge_end n)
     = Some (map (Pair TRUE) (drop k (TrueChildren n)) @ map (Pair FALSE) (FalseChildren n)
             @ map (Pair OTHER) (OtherChildren n))"
proof (induction "length (TrueChildren n) - k" arbitrary: k)
  case 0
  then have "advance_stage \<lparr>node = n, stage = TRUE, it = k, end_it = length (TrueChildren n)\<rparr>
      = advance_stage \<lparr>node = n, stage = FALSE, it = 0, end_it = length (FalseChildren n)\<rparr>"
    by (subst advance_stage.simps) simp
  then show ?case
    using 0 visit_false [of 0 n] by simp
next
  case (Suc d)
  then have lt: "k < length (TrueChildren n)" by simp
  let ?i = "\<lparr>node = n, stage = TRUE, it = k, end_it = length (TrueChildren n)\<rparr>"
  have same: "advance_stage ?i = ?i"
    using lt by (simp add: advance_stage_inside)
  have step: "pre_increment ?i
        = advance_stage \<lparr>node = n, stage = TRUE, it = Suc k, end_it = length (TrueChildren n)\<rparr>"
    using lt by (simp add: pre_increment_def)
  have ih: "visit_edges (advance_stage \<lparr>node = n, stage = TRUE, it = Suc k,
                end_it = length (TrueChildren n)\<rparr>) (edge_end n)
            = Some (map (Pair TRUE) (drop (Suc k) (TrueChildren n))
                    @ map (Pair FALSE) (FalseChildren n) @ map (Pair OTHER) (OtherChildren n))"
    using Suc lt by simp
  show ?case
    unfolding same using lt
    by (subst visit_edges.simps)
       (simp add: step ih iter_eq_def edge_end_sel edge_type_def deref_def children_of_def
          Cons_nth_drop_Suc [symmetric])
qed

text \<open>
  C9. Iterating from \<open>begin()\<close> to \<open>end()\<close> returns, and visits the elements of
  \<open>TrueChildren\<close>, then of \<open>FalseChildren\<close>, then of \<open>OtherChildren\<close>, each with \<open>type()\<close>
  equal to the label of its list; the number of visited elements is \<open>getNumChildren()\<close>.
\<close>

theorem edge_iterator_visits_children:
  "edges_of n = Some (map (Pair TRUE) (TrueChildren n) @ map (Pair FALSE) (FalseChildren n)
                      @ map (Pair OTHER) (OtherChildren n))
   \<and> map_option length (edges_of n) = Some (getNumChildren n)"
  using visit_true [of 0 n]
  by (simp add: edges_of_def edge_begin_def edge_iterator_init_eq getNumChildren_def)

section \<open>\<open>DOTGraphTraits<ControlDependenceGraph*>\<close>\<close>

text \<open>
  \<open>llvm::BasicBlock\<close> belongs to LLVM, not to this repository. The renderer reads two
  things of a block, \<open>hasName()\<close> and \<open>getName()\<close>; the blocks are given as a function
  from block addresses to these two values.
\<close>

record BlockValue =
  hasName :: bool
  getName :: string

text \<open>
  \<open>getNodeLabel\<close>. \<open>Node->getBlock()\<close> is dereferenced only where \<open>isRegion()\<close> is false,
  that is where the pointer is not null, so the \<open>NULL\<close> case of the dereference is never
  evaluated.
\<close>

definition getNodeLabel :: "(BasicBlock \<Rightarrow> BlockValue) \<Rightarrow> ControlDependenceNode \<Rightarrow> string" where
  "getNodeLabel blockAt Node =
     (if isRegion Node then ''REGION''
      else (case getBlock Node of
              Ptr b \<Rightarrow> (if hasName (blockAt b) then getName (blockAt b) else ''ENTRY'')
            | NULL \<Rightarrow> []))"

definition getEdgeSourceLabel :: "ControlDependenceNode \<Rightarrow> edge_iterator \<Rightarrow> string" where
  "getEdgeSourceLabel Node I =
     (case edge_type I of TRUE \<Rightarrow> ''T'' | FALSE \<Rightarrow> ''F'' | OTHER \<Rightarrow> [])"

text \<open>
  C8, as stated: the label is \<open>REGION\<close> exactly when the node is a region node. This fails
  for the node of a block whose name is \<open>REGION\<close>.
\<close>

theorem getNodeLabel_region_iff_counterexample:
  "\<not> (getNodeLabel (\<lambda>b. \<lparr>hasName = True, getName = ''REGION''\<rparr>)
         \<lparr>TheBB = Ptr 7, Parents = [], TrueChildren = [], FalseChildren = [], OtherChildren = []\<rparr>
        = ''REGION''
      \<longleftrightarrow> isRegion \<lparr>TheBB = Ptr 7, Parents = [], TrueChildren = [], FalseChildren = [],
                     OtherChildren = []\<rparr>)"
  by (simp add: getNodeLabel_def isRegion_def getBlock_def)

text \<open>
  C8, amended. The label of a region node is \<open>REGION\<close>; the label of the node of a block is
  the block's name when the block has a name and \<open>ENTRY\<close> when it does not; hence the label
  is \<open>REGION\<close> exactly when the node is a region node, provided that the block of a block
  node is not itself named \<open>REGION\<close>. The edge label is \<open>T\<close> for TRUE, \<open>F\<close> for FALSE and
  empty for OTHER.
\<close>

theorem getNodeLabel_cases:
  "(isRegion N \<longrightarrow> getNodeLabel blockAt N = ''REGION'')
   \<and> (\<forall>b. \<not> isRegion N \<and> getBlock N = Ptr b \<and> hasName (blockAt b)
          \<longrightarrow> getNodeLabel blockAt N = getName (blockAt b))
   \<and> (\<forall>b. \<not> isRegion N \<and> getBlock N = Ptr b \<and> \<not> hasName (blockAt b)
          \<longrightarrow> getNodeLabel blockAt N = ''ENTRY'')
   \<and> ((\<forall>b. getBlock N = Ptr b \<and> hasName (blockAt b) \<longrightarrow> getName (blockAt b) \<noteq> ''REGION'')
          \<longrightarrow> (getNodeLabel blockAt N = ''REGION'' \<longleftrightarrow> isRegion N))
   \<and> (isRegion N \<longleftrightarrow> getBlock N = NULL)
   \<and> (edge_type I = TRUE \<longrightarrow> getEdgeSourceLabel N I = ''T'')
   \<and> (edge_type I = FALSE \<longrightarrow> getEdgeSourceLabel N I = ''F'')
   \<and> (edge_type I = OTHER \<longrightarrow> getEdgeSourceLabel N I = [])"
  by (cases "TheBB N")
     (auto simp: getNodeLabel_def getEdgeSourceLabel_def isRegion_def getBlock_def)

theorem getNodeLabel_cases_witness:
  "getNodeLabel (\<lambda>b. \<lparr>hasName = (b = 7), getName = (if b = 7 then ''entry.split'' else [])\<rparr>)
      \<lparr>TheBB = NULL, Parents = [], TrueChildren = [], FalseChildren = [], OtherChildren = []\<rparr>
     = ''REGION''
   \<and> getNodeLabel (\<lambda>b. \<lparr>hasName = (b = 7), getName = (if b = 7 then ''entry.split'' else [])\<rparr>)
      \<lparr>TheBB = Ptr 7, Parents = [], TrueChildren = [], FalseChildren = [], OtherChildren = []\<rparr>
     = ''entry.split''
   \<and> getNodeLabel (\<lambda>b. \<lparr>hasName = (b = 7), getName = (if b = 7 then ''entry.split'' else [])\<rparr>)
      \<lparr>TheBB = Ptr 3, Parents = [], TrueChildren = [], FalseChildren = [], OtherChildren = []\<rparr>
     = ''ENTRY''
   \<and> getEdgeSourceLabel
        \<lparr>TheBB = Ptr 3, Parents = [], TrueChildren = [5], FalseChildren = [], OtherChildren = []\<rparr>
        (edge_begin
          \<lparr>TheBB = Ptr 3, Parents = [], TrueChildren = [5], FalseChildren = [], OtherChildren = []\<rparr>)
     = ''T''"
  using
    getNodeLabel_cases [of
      "\<lparr>TheBB = NULL, Parents = [], TrueChildren = [], FalseChildren = [], OtherChildren = []\<rparr>"
      "\<lambda>b. \<lparr>hasName = (b = 7), getName = (if b = 7 then ''entry.split'' else [])\<rparr>"
      "edge_begin \<lparr>TheBB = Ptr 3, Parents = [], TrueChildren = [5], FalseChildren = [],
          OtherChildren = []\<rparr>"]
    getNodeLabel_cases [of
      "\<lparr>TheBB = Ptr 7, Parents = [], TrueChildren = [], FalseChildren = [], OtherChildren = []\<rparr>"
      "\<lambda>b. \<lparr>hasName = (b = 7), getName = (if b = 7 then ''entry.split'' else [])\<rparr>"
      "edge_begin \<lparr>TheBB = Ptr 3, Parents = [], TrueChildren = [5], FalseChildren = [],
          OtherChildren = []\<rparr>"]
    getNodeLabel_cases [of
      "\<lparr>TheBB = Ptr 3, Parents = [], TrueChildren = [5], FalseChildren = [], OtherChildren = []\<rparr>"
      "\<lambda>b. \<lparr>hasName = (b = 7), getName = (if b = 7 then ''entry.split'' else [])\<rparr>"
      "edge_begin \<lparr>TheBB = Ptr 3, Parents = [], TrueChildren = [5], FalseChildren = [],
          OtherChildren = []\<rparr>"]
  by (simp add: isRegion_def getBlock_def edge_type_def edge_begin_def edge_iterator_init_eq
        advance_stage_inside getNodeLabel_def getEdgeSourceLabel_def)

section \<open>Inputs of the construction\<close>

text \<open>
  Modelled from the spec: the control-flow graph of the procedure, which LLVM supplies
  (\<open>Function\<close>, \<open>BasicBlock\<close>, the terminator of a block and its successors). A block ends
  either in a two-way conditional branch with its taken and not-taken targets, or in any
  other terminator with its list of successors (empty for a return).
\<close>

datatype Terminator = CondBr BasicBlock BasicBlock | Branch "BasicBlock list"

text \<open>
  Modelled from the spec: the procedure handed to \<open>runOnFunction\<close>. \<open>blocks\<close> lists the
  blocks that the traversal of the host reaches, in its order; the traversal itself is
  outside the component.
\<close>

record CFG =
  blocks :: "BasicBlock list"
  terminator :: "BasicBlock \<Rightarrow> Terminator"

text \<open>Modelled from the spec: the successor edges leaving a block, in order.\<close>

definition successors :: "CFG \<Rightarrow> BasicBlock \<Rightarrow> BasicBlock list" where
  "successors F A = (case terminator F A of CondBr t e \<Rightarrow> [t, e] | Branch bs \<Rightarrow> bs)"

text \<open>Modelled from the spec: every CFG edge \<open>(A, B)\<close> of the procedure.\<close>

definition cfg_edges :: "CFG \<Rightarrow> (BasicBlock \<times> BasicBlock) list" where
  "cfg_edges F = concat (map (\<lambda>A. map (Pair A) (successors F A)) (blocks F))"

text \<open>
  Modelled from the spec: the post-dominator oracle (LLVM's \<open>PostDominatorTree\<close>), with
  the three queries of the interface section: \<open>postDominates X Y\<close>, the immediate
  post-dominator of a block (none at the top of the tree) and the nearest common
  ancestor of two blocks.
\<close>

record PostDominatorTree =
  postDominates :: "BasicBlock \<Rightarrow> BasicBlock \<Rightarrow> bool"
  immediatePostDominator :: "BasicBlock \<Rightarrow> BasicBlock option"
  nearestCommonAncestor :: "BasicBlock \<Rightarrow> BasicBlock \<Rightarrow> BasicBlock"

section \<open>Edge Classifier\<close>

text \<open>
  Modelled from the spec: the body of \<open>ControlDependenceGraph::getEdgeType\<close>, which the
  header only declares. An edge leaving a two-way conditional is TRUE on the taken arm
  and FALSE on the other; every other edge is OTHER.
\<close>

definition getEdgeType :: "CFG \<Rightarrow> BasicBlock \<Rightarrow> BasicBlock \<Rightarrow> EdgeType" where
  "getEdgeType F A B =
     (case terminator F A of
        CondBr t e \<Rightarrow> (if B = t then TRUE else FALSE)
      | Branch bs \<Rightarrow> OTHER)"

section \<open>Nodes in the store\<close>

text \<open>Reading the node a pointer points to (\<open>None\<close> when the graph owns no such node).\<close>

definition node_at :: "ControlDependenceGraph \<Rightarrow> node_ref \<Rightarrow> ControlDependenceNode option" where
  "node_at g p = map_of (nodes g) p"

text \<open>Writing through a pointer: the node at \<open>p\<close> becomes \<open>f\<close> of itself.\<close>

definition update_node ::
  "node_ref \<Rightarrow> (ControlDependenceNode \<Rightarrow> ControlDependenceNode) \<Rightarrow>
   ControlDependenceGraph \<Rightarrow> ControlDependenceGraph" where
  "update_node p f g =
     g\<lparr>nodes := map (\<lambda>(q, n). if q = p then (q, f n) else (q, n)) (nodes g)\<rparr>"

definition parents_at :: "ControlDependenceGraph \<Rightarrow> node_ref \<Rightarrow> node_ref list" where
  "parents_at g p = (case node_at g p of None \<Rightarrow> [] | Some n \<Rightarrow> Parents n)"

definition children_at :: "ControlDependenceGraph \<Rightarrow> EdgeType \<Rightarrow> node_ref \<Rightarrow> node_ref list" where
  "children_at g t p = (case node_at g p of None \<Rightarrow> [] | Some n \<Rightarrow> children_of t n)"

text \<open>The two constructors: \<open>TheBB(NULL)\<close> and \<open>TheBB(bb)\<close>, all four vectors empty.\<close>

definition new_ControlDependenceNode :: "BasicBlock ptr \<Rightarrow> ControlDependenceNode" where
  "new_ControlDependenceNode bb =
     \<lparr>TheBB = bb, Parents = [], TrueChildren = [], FalseChildren = [], OtherChildren = []\<rparr>"

definition clearAllChildren :: "ControlDependenceNode \<Rightarrow> ControlDependenceNode" where
  "clearAllChildren n = n\<lparr>TrueChildren := [], FalseChildren := [], OtherChildren := []\<rparr>"

definition clearAllParents :: "ControlDependenceNode \<Rightarrow> ControlDependenceNode" where
  "clearAllParents n = n\<lparr>Parents := []\<rparr>"

text \<open>
  Modelled from the spec: the body of \<open>ControlDependenceNode::addTrue\<close>, which the header
  only declares: the child is appended to the sequence of TRUE children.
\<close>

definition addTrue :: "node_ref \<Rightarrow> ControlDependenceNode \<Rightarrow> ControlDependenceNode" where
  "addTrue Child n = n\<lparr>TrueChildren := TrueChildren n @ [Child]\<rparr>"

text \<open>Modelled from the spec: the body of \<open>ControlDependenceNode::addFalse\<close>, likewise.\<close>

definition addFalse :: "node_ref \<Rightarrow> ControlDependenceNode \<Rightarrow> ControlDependenceNode" where
  "addFalse Child n = n\<lparr>FalseChildren := FalseChildren n @ [Child]\<rparr>"

text \<open>Modelled from the spec: the body of \<open>ControlDependenceNode::addOther\<close>, likewise.\<close>

definition addOther :: "node_ref \<Rightarrow> ControlDependenceNode \<Rightarrow> ControlDependenceNode" where
  "addOther Child n = n\<lparr>OtherChildren := OtherChildren n @ [Child]\<rparr>"

text \<open>
  Modelled from the spec: the body of \<open>ControlDependenceNode::addParent\<close>, which the
  header only declares: the parent is appended to the parent list.
\<close>

definition addParent :: "node_ref \<Rightarrow> ControlDependenceNode \<Rightarrow> ControlDependenceNode" where
  "addParent Parent n = n\<lparr>Parents := Parents n @ [Parent]\<rparr>"

text \<open>Modelled from the spec: adding a child under a given label.\<close>

definition addChild :: "EdgeType \<Rightarrow> node_ref \<Rightarrow> ControlDependenceNode \<Rightarrow> ControlDependenceNode" where
  "addChild t Child n =
     (case t of TRUE \<Rightarrow> addTrue Child n | FALSE \<Rightarrow> addFalse Child n | OTHER \<Rightarrow> addOther Child n)"

text \<open>
  Modelled from the spec: creating a node, \<open>new ControlDependenceNode(bb)\<close> followed by
  \<open>nodes.push_back\<close>. The identity of the new node is chosen by the allocator: the
  \<open>k\<close>-th node that a graph creates gets the address \<open>alloc k\<close>.
\<close>

definition new_node ::
  "(nat \<Rightarrow> node_ref) \<Rightarrow> BasicBlock ptr \<Rightarrow> ControlDependenceGraph \<Rightarrow>
   node_ref \<times> ControlDependenceGraph" where
  "new_node alloc bb g =
     (alloc (length (nodes g)),
      g\<lparr>nodes := nodes g @ [(alloc (length (nodes g)), new_ControlDependenceNode bb)]\<rparr>)"

text \<open>\<open>m[k] = v\<close> on a \<open>std::map\<close>: a new entry in key order, or the entry of \<open>k\<close> overwritten.\<close>

definition map_assign ::
  "(BasicBlock \<times> 'v) list \<Rightarrow> BasicBlock \<Rightarrow> 'v \<Rightarrow> (BasicBlock \<times> 'v) list" where
  "map_assign m k v =
     (if map_of m k = None then insort_key fst (k, v) m
      else map (\<lambda>(k', v'). if k' = k then (k', v) else (k', v')) m)"

section \<open>Dependence Builder\<close>

text \<open>
  Modelled from the spec: step 1 of \<open>computeDependencies\<close>, one node for every block,
  entered in the block-to-node index.
\<close>

fun create_block_nodes ::
  "(nat \<Rightarrow> node_ref) \<Rightarrow> BasicBlock list \<Rightarrow> ControlDependenceGraph \<Rightarrow> ControlDependenceGraph" where
  "create_block_nodes alloc [] g = g"
| "create_block_nodes alloc (b # bs) g =
     (case new_node alloc (Ptr b) g of
        (p, g') \<Rightarrow> create_block_nodes alloc bs (g'\<lparr>bbMap := map_assign (bbMap g') b (Ptr p)\<rparr>))"

text \<open>
  Modelled from the spec: step 2b of \<open>computeDependencies\<close>, the walk up the
  post-dominator tree from \<open>W\<close>, moving to the immediate post-dominator and stopping
  before \<open>L\<close> (or at the top of the tree). The oracle is any function, so the walk need
  not return: \<open>None\<close> stands for a walk that runs forever.
\<close>

partial_function (option) pdt_walk ::
  "PostDominatorTree \<Rightarrow> BasicBlock \<Rightarrow> BasicBlock \<Rightarrow> BasicBlock list option" where
  "pdt_walk pdt W L =
     (if W = L then Some []
      else (case immediatePostDominator pdt W of
              None \<Rightarrow> Some [W]
            | Some W' \<Rightarrow> Option.bind (pdt_walk pdt W' L) (\<lambda>ws. Some (W # ws))))"

declare pdt_walk.simps [code]

text \<open>
  Modelled from the spec: a parent/child link. Adding child \<open>C\<close> to parent \<open>P\<close> under a
  label also appends \<open>P\<close> to the parent list of \<open>C\<close>.
\<close>

definition link ::
  "EdgeType \<Rightarrow> node_ref \<Rightarrow> node_ref \<Rightarrow> ControlDependenceGraph \<Rightarrow> ControlDependenceGraph" where
  "link t P C g = update_node C (addParent P) (update_node P (addChild t C) g)"

text \<open>
  Modelled from the spec: step 2c of \<open>computeDependencies\<close> for one visited node. A
  parent/child pair with the same label is recorded once.
\<close>

definition add_dependence ::
  "EdgeType \<Rightarrow> node_ref \<Rightarrow> node_ref \<Rightarrow> ControlDependenceGraph \<Rightarrow> ControlDependenceGraph" where
  "add_dependence t AN CN g =
     (if CN \<in> set (children_at g t AN) then g else link t AN CN g)"

text \<open>
  Modelled from the spec: step 2c of \<open>computeDependencies\<close> for all visited nodes of one
  edge. A visited block without a node is ill-formed input, which is rejected: the
  result is \<open>None\<close> and no graph is produced.
\<close>

fun add_dependences ::
  "EdgeType \<Rightarrow> node_ref \<Rightarrow> BasicBlock list \<Rightarrow> ControlDependenceGraph \<Rightarrow>
   ControlDependenceGraph option" where
  "add_dependences t AN [] g = Some g"
| "add_dependences t AN (W # ws) g =
     (case fst (getNode_const g W) of
        NULL \<Rightarrow> None
      | Ptr CN \<Rightarrow> add_dependences t AN ws (add_dependence t AN CN g))"

text \<open>
  Modelled from the spec: step 2 of \<open>computeDependencies\<close> for one CFG edge \<open>(A, B)\<close>: an
  edge whose target post-dominates its source is skipped; otherwise the nodes on the
  walk from \<open>B\<close> up to the nearest common ancestor of \<open>A\<close> and \<open>B\<close> become children of the
  node of \<open>A\<close> under the label of the edge.
\<close>

definition process_edge ::
  "PostDominatorTree \<Rightarrow> CFG \<Rightarrow> BasicBlock \<times> BasicBlock \<Rightarrow> ControlDependenceGraph \<Rightarrow>
   ControlDependenceGraph option" where
  "process_edge pdt F e g =
     (case e of (A, B) \<Rightarrow>
        if postDominates pdt B A then Some g
        else (case pdt_walk pdt B (nearestCommonAncestor pdt A B) of
                None \<Rightarrow> None
              | Some ws \<Rightarrow>
                  (case fst (getNode_const g A) of
                     NULL \<Rightarrow> None
                   | Ptr AN \<Rightarrow> add_dependences (getEdgeType F A B) AN ws g)))"

text \<open>Modelled from the spec: step 2 of \<open>computeDependencies\<close>, over every CFG edge.\<close>

fun process_edges ::
  "PostDominatorTree \<Rightarrow> CFG \<Rightarrow> (BasicBlock \<times> BasicBlock) list \<Rightarrow> ControlDependenceGraph \<Rightarrow>
   ControlDependenceGraph option" where
  "process_edges pdt F [] g = Some g"
| "process_edges pdt F (e # es) g =
     (case process_edge pdt F e g of
        None \<Rightarrow> None
      | Some g' \<Rightarrow> process_edges pdt F es g')"

text \<open>
  Modelled from the spec: step 3 of \<open>computeDependencies\<close>: every node other than the
  root that still has no parent becomes an OTHER child of the root.
\<close>

fun attach_to_root ::
  "node_ref \<Rightarrow> node_ref list \<Rightarrow> ControlDependenceGraph \<Rightarrow> ControlDependenceGraph" where
  "attach_to_root r [] g = g"
| "attach_to_root r (p # ps) g =
     attach_to_root r ps
       (if p \<noteq> r \<and> parents_at g p = [] then link OTHER r p g else g)"

text \<open>
  Modelled from the spec: the body of \<open>ControlDependenceGraph::computeDependencies\<close>,
  which the header only declares: the root and one node per block are created, every
  CFG edge is processed, and the parentless nodes are attached to the root. The result
  is \<open>None\<close> when no graph is produced (a walk does not return, or the input is
  rejected).
\<close>

definition computeDependencies ::
  "(nat \<Rightarrow> node_ref) \<Rightarrow> PostDominatorTree \<Rightarrow> CFG \<Rightarrow> ControlDependenceGraph \<Rightarrow>
   ControlDependenceGraph option" where
  "computeDependencies alloc pdt F g =
     (case new_node alloc NULL g of
        (r, g1) \<Rightarrow>
          (case process_edges pdt F (cfg_edges F)
                  (create_block_nodes alloc (blocks F) (g1\<lparr>root := Ptr r\<rparr>)) of
             None \<Rightarrow> None
           | Some g3 \<Rightarrow> Some (attach_to_root r (map fst (nodes g3)) g3)))"

section \<open>Region Compactor\<close>

text \<open>
  Modelled from the spec: two parent lists are set-equal: the same parents, regardless
  of order.
\<close>

definition same_parent_set :: "node_ref list \<Rightarrow> node_ref list \<Rightarrow> bool" where
  "same_parent_set ps qs = (list_all (\<lambda>p. p \<in> set qs) ps \<and> list_all (\<lambda>q. q \<in> set ps) qs)"

text \<open>
  Modelled from the spec: step 1 of \<open>insertRegions\<close>, the partition of the given nodes by
  parent-set equality. Each part lists its members in the order of \<open>nodes\<close>; its first
  member is the representative.
\<close>

function partition_by_parents ::
  "(node_ref \<times> ControlDependenceNode) list \<Rightarrow> node_ref list list" where
  "partition_by_parents [] = []"
| "partition_by_parents ((p, n) # rest) =
     (p # map fst (filter (\<lambda>(q, m). same_parent_set (Parents m) (Parents n)) rest))
     # partition_by_parents (filter (\<lambda>(q, m). \<not> same_parent_set (Parents m) (Parents n)) rest)"
  by pat_completeness auto
termination
  by (relation "measure length") (auto simp: less_Suc_eq_le)

text \<open>
  Modelled from the spec: redirecting one child list of a former parent: the links to
  the members are removed, and the region takes the place of the representative, under
  the label that the representative had.
\<close>

definition redirect_children ::
  "node_ref \<Rightarrow> node_ref list \<Rightarrow> node_ref \<Rightarrow> node_ref list \<Rightarrow> node_ref list" where
  "redirect_children rep ms R cs =
     (if rep \<in> set cs then filter (\<lambda>c. c \<notin> set ms) cs @ [R]
      else filter (\<lambda>c. c \<notin> set ms) cs)"

text \<open>Modelled from the spec: redirecting the three child lists of a former parent.\<close>

definition redirect ::
  "node_ref \<Rightarrow> node_ref list \<Rightarrow> node_ref \<Rightarrow> ControlDependenceNode \<Rightarrow> ControlDependenceNode" where
  "redirect rep ms R n =
     n\<lparr>TrueChildren := redirect_children rep ms R (TrueChildren n),
       FalseChildren := redirect_children rep ms R (FalseChildren n),
       OtherChildren := redirect_children rep ms R (OtherChildren n)\<rparr>"

text \<open>
  Modelled from the spec: step 2 of \<open>insertRegions\<close> for one part: a new region node is
  created; every former parent of the members points to the region instead and becomes
  a parent of the region; the members become OTHER children of the region, and their
  parent lists are cleared and replaced by the region alone.
\<close>

fun insert_region ::
  "(nat \<Rightarrow> node_ref) \<Rightarrow> node_ref list \<Rightarrow> ControlDependenceGraph \<Rightarrow> ControlDependenceGraph" where
  "insert_region alloc [] g = g"
| "insert_region alloc (rep # others) g =
     (case new_node alloc NULL g of
        (R, g1) \<Rightarrow>
          fold (\<lambda>m. update_node m (\<lambda>n. addParent R (clearAllParents n))) (rep # others)
            (fold (\<lambda>m. update_node R (addOther m)) (rep # others)
              (fold (\<lambda>Q h. update_node R (addParent Q)
                               (update_node Q (redirect rep (rep # others) R) h))
                 (parents_at g rep) g1)))"

text \<open>Modelled from the spec: the nodes of the graph other than the root.\<close>

definition non_root_nodes :: "ControlDependenceGraph \<Rightarrow> (node_ref \<times> ControlDependenceNode) list" where
  "non_root_nodes g = filter (\<lambda>(p, n). Ptr p \<noteq> root g) (nodes g)"

text \<open>
  Modelled from the spec: the body of \<open>ControlDependenceGraph::insertRegions\<close>, which the
  header only declares: the non-root nodes are partitioned by parent-set equality, and
  every part with more than one node is folded under a new region node; parts of one
  node are left untouched.
\<close>

definition insertRegions ::
  "(nat \<Rightarrow> node_ref) \<Rightarrow> ControlDependenceGraph \<Rightarrow> ControlDependenceGraph" where
  "insertRegions alloc g =
     fold (insert_region alloc)
       (filter (\<lambda>ms. 1 < length ms) (partition_by_parents (non_root_nodes g))) g"

text \<open>
  The graph of a pass object on which \<open>runOnFunction\<close> has not run yet: no nodes and an
  empty index. The constructor leaves \<open>root\<close> uninitialised; the construction assigns
  \<open>root\<close> before it reads it, so the value given here is never read.
\<close>

definition empty_graph :: ControlDependenceGraph where
  "empty_graph = \<lparr>root = NULL, nodes = [], bbMap = []\<rparr>"

text \<open>
  Modelled from the spec: the body of \<open>ControlDependenceGraph::runOnFunction\<close>, which the
  header only declares: the Dependence Builder builds the raw graph and the Region
  Compactor compacts it.
\<close>

definition runOnFunction ::
  "(nat \<Rightarrow> node_ref) \<Rightarrow> PostDominatorTree \<Rightarrow> CFG \<Rightarrow> ControlDependenceGraph option" where
  "runOnFunction alloc pdt F =
     map_option (insertRegions alloc) (computeDependencies alloc pdt F empty_graph)"

section \<open>Query Layer\<close>

text \<open>Modelled from the spec: the child edges of a node, of any label.\<close>

definition all_children :: "ControlDependenceGraph \<Rightarrow> node_ref \<Rightarrow> node_ref list" where
  "all_children g p = children_at g TRUE p @ children_at g FALSE p @ children_at g OTHER p"

text \<open>
  Modelled from the spec: the depth-first search of the queries, with visited-marking
  and bounded by a number of nodes to visit. It returns the nodes it has visited.
\<close>

fun dfs ::
  "ControlDependenceGraph \<Rightarrow> nat \<Rightarrow> node_ref list \<Rightarrow> node_ref list \<Rightarrow> node_ref list" where
  "dfs g fuel [] visited = visited"
| "dfs g 0 (p # stack) visited = visited"
| "dfs g (Suc fuel) (p # stack) visited =
     (if p \<in> set visited then dfs g (Suc fuel) stack visited
      else dfs g fuel (all_children g p @ stack) (p # visited))"

text \<open>
  Modelled from the spec: the body of \<open>ControlDependenceGraph::controls\<close>, which the header
  declares as a const member: the node of \<open>B\<close> is reachable from the node of \<open>A\<close> along
  child edges, and \<open>A\<close> and \<open>B\<close> differ. The search is bounded by the node count. A block
  without a node controls nothing and is controlled by nothing. In state-passing form:
  the answer and the graph after the call.
\<close>

definition controls ::
  "ControlDependenceGraph \<Rightarrow> BasicBlock \<Rightarrow> BasicBlock \<Rightarrow> bool \<times> ControlDependenceGraph" where
  "controls g A B =
     ((case fst (getNode_const g A) of
         NULL \<Rightarrow> False
       | Ptr a \<Rightarrow>
           (case fst (getNode_const g B) of
              NULL \<Rightarrow> False
            | Ptr b \<Rightarrow> A \<noteq> B \<and> b \<in> set (dfs g (length (nodes g)) [a] []))), g)"

text \<open>
  Modelled from the spec: the body of \<open>ControlDependenceGraph::influences\<close>, which the
  header declares as a const member: the node of one block is an ancestor of the node
  of the other, in either direction.
\<close>

definition influences ::
  "ControlDependenceGraph \<Rightarrow> BasicBlock \<Rightarrow> BasicBlock \<Rightarrow> bool \<times> ControlDependenceGraph" where
  "influences g A B = (fst (controls g A B) \<or> fst (controls g B A), g)"

section \<open>The diamond procedure\<close>

text \<open>
  The procedure \<open>A -> B, A -> C, B -> D, C -> D\<close> with \<open>A = 10\<close>, \<open>B = 11\<close>, \<open>C = 12\<close>,
  \<open>D = 13\<close>: block 10 ends in a two-way conditional, taken to 11 and not taken to 12.
\<close>

definition diamond_cfg :: CFG where
  "diamond_cfg =
     \<lparr>blocks = [10, 11, 12, 13],
      terminator = (\<lambda>b. if b = 10 then CondBr 11 12
                         else if b = 11 \<or> b = 12 then Branch [13] else Branch [])\<rparr>"

text \<open>
  Its post-dominator tree: block 13 is the immediate post-dominator of the three other
  blocks and has none itself.
\<close>

definition diamond_pdt :: PostDominatorTree where
  "diamond_pdt =
     \<lparr>postDominates = (\<lambda>X Y. X = Y \<or> X = 13),
      immediatePostDominator = (\<lambda>X. if X = 13 then None else Some 13),
      nearestCommonAncestor = (\<lambda>X Y. if X = Y then X else 13)\<rparr>"

text \<open>
  The graph that \<open>runOnFunction\<close> returns for the diamond when the \<open>k\<close>-th node gets the
  address \<open>k\<close>: nodes 5 and 6 are region nodes.
\<close>

definition diamond_compacted :: ControlDependenceGraph where
  "diamond_compacted =
     \<lparr>root = Ptr 0,
      nodes =
        [(0, \<lparr>TheBB = NULL, Parents = [], TrueChildren = [], FalseChildren = [],
               OtherChildren = [5]\<rparr>),
         (1, \<lparr>TheBB = Ptr 10, Parents = [5], TrueChildren = [6], FalseChildren = [],
               OtherChildren = []\<rparr>),
         (2, \<lparr>TheBB = Ptr 11, Parents = [6], TrueChildren = [], FalseChildren = [],
               OtherChildren = []\<rparr>),
         (3, \<lparr>TheBB = Ptr 12, Parents = [6], TrueChildren = [], FalseChildren = [],
               OtherChildren = []\<rparr>),
         (4, \<lparr>TheBB = Ptr 13, Parents = [5], TrueChildren = [], FalseChildren = [],
               OtherChildren = []\<rparr>),
         (5, \<lparr>TheBB = NULL, Parents = [0], TrueChildren = [], FalseChildren = [],
               OtherChildren = [1, 4]\<rparr>),
         (6, \<lparr>TheBB = NULL, Parents = [1], TrueChildren = [], FalseChildren = [],
               OtherChildren = [2, 3]\<rparr>)],
      bbMap = [(10, Ptr 1), (11, Ptr 2), (12, Ptr 3), (13, Ptr 4)]\<rparr>"

section \<open>Evaluating the construction\<close>


lemmas store_defs = new_node_def new_ControlDependenceNode_def link_def update_node_def
  children_at_def parents_at_def node_at_def children_of_def addChild_def addTrue_def
  addFalse_def addOther_def addParent_def clearAllParents_def

text \<open>
  C4. For a procedure of one block \<open>b\<close> with no edges, \<open>runOnFunction\<close> returns the graph
  with exactly two nodes, the root and the node of \<open>b\<close>; the node of \<open>b\<close> is the only
  OTHER child of the root, has the root as its only parent, and there is no other
  dependence edge; \<open>controls(b, b)\<close> is false.
\<close>

theorem single_block_graph:
  assumes "blocks F = [b]" and "successors F b = []" and "alloc 0 \<noteq> alloc 1"
  shows "runOnFunction alloc pdt F =
     Some \<lparr>root = Ptr (alloc 0),
           nodes = [(alloc 0, \<lparr>TheBB = NULL, Parents = [], TrueChildren = [], FalseChildren = [],
                               OtherChildren = [alloc 1]\<rparr>),
                    (alloc 1, \<lparr>TheBB = Ptr b, Parents = [alloc 0], TrueChildren = [],
                               FalseChildren = [], OtherChildren = []\<rparr>)],
           bbMap = [(b, Ptr (alloc 1))]\<rparr>
     \<and> map_option (\<lambda>g. fst (controls g b b)) (runOnFunction alloc pdt F) = Some False"
proof -
  have e: "cfg_edges F = []"
    using assms by (simp add: cfg_edges_def)
  have raw: "computeDependencies alloc pdt F empty_graph =
     Some \<lparr>root = Ptr (alloc 0),
           nodes = [(alloc 0, \<lparr>TheBB = NULL, Parents = [], TrueChildren = [], FalseChildren = [],
                               OtherChildren = [alloc 1]\<rparr>),
                    (alloc 1, \<lparr>TheBB = Ptr b, Parents = [alloc 0], TrueChildren = [],
                               FalseChildren = [], OtherChildren = []\<rparr>)],
           bbMap = [(b, Ptr (alloc 1))]\<rparr>"
    using assms by (simp add: computeDependencies_def empty_graph_def e store_defs map_assign_def)
  have fin: "runOnFunction alloc pdt F =
     Some \<lparr>root = Ptr (alloc 0),
           nodes = [(alloc 0, \<lparr>TheBB = NULL, Parents = [], TrueChildren = [], FalseChildren = [],
                               OtherChildren = [alloc 1]\<rparr>),
                    (alloc 1, \<lparr>TheBB = Ptr b, Parents = [alloc 0], TrueChildren = [],
                               FalseChildren = [], OtherChildren = []\<rparr>)],
           bbMap = [(b, Ptr (alloc 1))]\<rparr>"
    using assms(3) by (simp add: runOnFunction_def raw insertRegions_def non_root_nodes_def)
  show ?thesis
    by (simp add: fin controls_def getNode_const_def)
qed

theorem single_block_graph_witness:
  "runOnFunction id diamond_pdt \<lparr>blocks = [10], terminator = (\<lambda>b. Branch [])\<rparr> =
     Some \<lparr>root = Ptr 0,
           nodes = [(0, \<lparr>TheBB = NULL, Parents = [], TrueChildren = [], FalseChildren = [],
                         OtherChildren = [1]\<rparr>),
                    (1, \<lparr>TheBB = Ptr 10, Parents = [0], TrueChildren = [],
                         FalseChildren = [], OtherChildren = []\<rparr>)],
           bbMap = [(10, Ptr 1)]\<rparr>
   \<and> map_option (\<lambda>g. fst (controls g 10 10))
        (runOnFunction id diamond_pdt \<lparr>blocks = [10], terminator = (\<lambda>b. Branch [])\<rparr>)
      = Some False"
  using single_block_graph [of "\<lparr>blocks = [10], terminator = (\<lambda>b. Branch [])\<rparr>" 10 id diamond_pdt]
  by (auto simp: successors_def)



lemma bbMap_update_node [simp]: "bbMap (update_node p f g) = bbMap g"
  by (simp add: update_node_def)

lemma root_update_node [simp]: "root (update_node p f g) = root g"
  by (simp add: update_node_def)







lemma diamond_run: "runOnFunction id diamond_pdt diamond_cfg = Some diamond_compacted"
  by code_simp

section \<open>Invariants of the construction\<close>

text \<open>The addresses of the nodes that the graph owns.\<close>

definition owned :: "ControlDependenceGraph \<Rightarrow> node_ref set" where
  "owned g = fst ` set (nodes g)"

text \<open>The \<open>k\<close>-th entry of \<open>nodes\<close> has the address that the allocator gave to the \<open>k\<close>-th node.\<close>

definition keys_ok :: "(nat \<Rightarrow> node_ref) \<Rightarrow> ControlDependenceGraph \<Rightarrow> bool" where
  "keys_ok alloc g = (map fst (nodes g) = map alloc [0..<length (nodes g)])"

text \<open>The index maps blocks to owned nodes other than the first one, which is the root.\<close>

definition bb_ok :: "(nat \<Rightarrow> node_ref) \<Rightarrow> ControlDependenceGraph \<Rightarrow> bool" where
  "bb_ok alloc g =
     (\<forall>b p. (b, p) \<in> set (bbMap g) \<longrightarrow> (\<exists>k. 0 < k \<and> k < length (nodes g) \<and> p = Ptr (alloc k)))"

subsection \<open>The store\<close>

lemma nodes_update_node_keys [simp]:
  "map fst (nodes (update_node p f g)) = map fst (nodes g)"
  by (simp add: update_node_def case_prod_unfold comp_def)

lemma length_nodes_update_node [simp]: "length (nodes (update_node p f g)) = length (nodes g)"
  by (simp add: update_node_def)

lemma owned_update_node [simp]: "owned (update_node p f g) = owned g"
  unfolding owned_def using nodes_update_node_keys [of p f g]
  by (metis set_map)

lemma node_at_update_node:
  "node_at (update_node q f g) p = (if p = q then map_option f (node_at g p) else node_at g p)"
proof -
  have "map_of (map (\<lambda>(k, n). if k = q then (k, f n) else (k, n)) xs) p
        = (if p = q then map_option f (map_of xs p) else map_of xs p)" for xs
    by (induction xs) auto
  then show ?thesis by (simp add: node_at_def update_node_def)
qed

lemma parents_at_update_node:
  "parents_at (update_node q f g) p =
     (if p = q then (case node_at g p of None \<Rightarrow> [] | Some n \<Rightarrow> Parents (f n)) else parents_at g p)"
  by (simp add: parents_at_def node_at_update_node split: option.splits)

lemma children_at_update_node:
  "children_at (update_node q f g) t p =
     (if p = q then (case node_at g p of None \<Rightarrow> [] | Some n \<Rightarrow> children_of t (f n))
      else children_at g t p)"
  by (simp add: children_at_def node_at_update_node split: option.splits)

lemma node_at_None_iff: "node_at g p = None \<longleftrightarrow> p \<notin> owned g"
  by (simp add: node_at_def owned_def map_of_eq_None_iff)

lemma node_at_owned: "p \<in> owned g \<Longrightarrow> \<exists>n. node_at g p = Some n"
  using node_at_None_iff [of g p] by auto

lemma keys_ok_update_node [simp]: "keys_ok alloc (update_node p f g) = keys_ok alloc g"
  by (simp add: keys_ok_def)

lemma bb_ok_update_node [simp]: "bb_ok alloc (update_node p f g) = bb_ok alloc g"
  by (simp add: bb_ok_def)

lemma owned_keys_ok: "keys_ok alloc g \<Longrightarrow> owned g = alloc ` {..<length (nodes g)}"
proof -
  assume "keys_ok alloc g"
  then have "set (map fst (nodes g)) = set (map alloc [0..<length (nodes g)])"
    by (simp add: keys_ok_def)
  then show ?thesis
    by (simp add: owned_def atLeast0LessThan)
qed

lemma distinct_keys_ok:
  assumes "inj alloc" and "keys_ok alloc g"
  shows "distinct (map fst (nodes g))"
proof -
  have e: "map fst (nodes g) = map alloc [0..<length (nodes g)]"
    using assms(2) by (simp only: keys_ok_def)
  have "inj_on alloc (set [0..<length (nodes g)])"
    using assms(1) by (rule inj_on_subset) simp
  then have "distinct (map alloc [0..<length (nodes g)])"
    by (simp add: distinct_map)
  then show ?thesis
    by (subst e)
qed

lemma new_node_fresh:
  "inj alloc \<Longrightarrow> keys_ok alloc g \<Longrightarrow> alloc (length (nodes g)) \<notin> owned g"
  by (auto simp: owned_keys_ok inj_eq)

lemma keys_ok_new_node: "keys_ok alloc g \<Longrightarrow> keys_ok alloc (snd (new_node alloc bb g))"
  by (simp add: keys_ok_def new_node_def)

lemma node_at_new_node:
  "alloc (length (nodes g)) \<notin> owned g \<Longrightarrow>
   node_at (snd (new_node alloc bb g)) p =
     (if p = alloc (length (nodes g)) then Some (new_ControlDependenceNode bb) else node_at g p)"
  using node_at_None_iff [of g "alloc (length (nodes g))"]
  by (auto simp: node_at_def new_node_def map_add_def split: option.splits)

lemma owned_new_node: "owned (snd (new_node alloc bb g)) = insert (alloc (length (nodes g))) (owned g)"
  by (auto simp: owned_def new_node_def)

lemma set_map_assign: "set (map_assign m k v) \<subseteq> insert (k, v) (set m)"
  by (auto simp: map_assign_def set_insort_key split: if_splits)

text \<open>
  The invariant of the Dependence Builder: the root is the first node and has no parent,
  and the parents of owned nodes are owned nodes.
\<close>

definition raw_inv :: "(nat \<Rightarrow> node_ref) \<Rightarrow> ControlDependenceGraph \<Rightarrow> bool" where
  "raw_inv alloc g =
     (keys_ok alloc g \<and> nodes g \<noteq> [] \<and> root g = Ptr (alloc 0) \<and> bb_ok alloc g
      \<and> parents_at g (alloc 0) = []
      \<and> (\<forall>p. p \<in> owned g \<longrightarrow> set (parents_at g p) \<subseteq> owned g))"

text \<open>Every owned node other than \<open>r\<close> has a parent.\<close>

definition all_parented :: "node_ref \<Rightarrow> ControlDependenceGraph \<Rightarrow> bool" where
  "all_parented r g = (\<forall>p. p \<in> owned g \<longrightarrow> p \<noteq> r \<longrightarrow> parents_at g p \<noteq> [])"

lemma root_owned: "keys_ok alloc g \<Longrightarrow> nodes g \<noteq> [] \<Longrightarrow> alloc 0 \<in> owned g"
  by (auto simp: owned_keys_ok)

lemma bb_ok_lookup:
  assumes "bb_ok alloc g" and "fst (getNode_const g W) = Ptr CN" and "inj alloc"
    and "keys_ok alloc g"
  shows "CN \<in> owned g \<and> CN \<noteq> alloc 0"
proof -
  from assms(2) have "map_of (bbMap g) W = Some (Ptr CN)"
    by (auto simp: getNode_const_def split: if_splits)
  then have "(W, Ptr CN) \<in> set (bbMap g)"
    by (rule map_of_SomeD)
  with assms(1) obtain k where k: "0 < k" "k < length (nodes g)" "CN = alloc k"
    unfolding bb_ok_def by blast
  then show ?thesis
    using assms(3,4) by (auto simp: owned_keys_ok inj_eq)
qed

subsection \<open>Links\<close>

lemma Parents_addChild [simp]: "Parents (addChild t C n) = Parents n"
  by (cases t) (simp_all add: addChild_def addTrue_def addFalse_def addOther_def)

lemma Parents_addParent [simp]: "Parents (addParent P n) = Parents n @ [P]"
  by (simp add: addParent_def)

lemma parents_at_link:
  "parents_at (link t P C g) p =
     (if p = C \<and> p \<in> owned g then parents_at g p @ [P] else parents_at g p)"
  using node_at_None_iff [of g p]
  by (auto simp: link_def parents_at_def node_at_update_node split: option.splits)

lemma link_frame [simp]:
  "owned (link t P C g) = owned g" "keys_ok alloc (link t P C g) = keys_ok alloc g"
  "bb_ok alloc (link t P C g) = bb_ok alloc g" "root (link t P C g) = root g"
  "bbMap (link t P C g) = bbMap g" "length (nodes (link t P C g)) = length (nodes g)"
  by (simp_all add: link_def)

lemma nodes_link_Nil [simp]: "nodes (link t P C g) = [] \<longleftrightarrow> nodes g = []"
  using link_frame(6) [of t P C g] by (metis length_0_conv)

lemma raw_inv_link:
  assumes "raw_inv alloc g" and "P \<in> owned g" and "C \<noteq> alloc 0"
  shows "raw_inv alloc (link t P C g)"
  using assms by (auto simp: raw_inv_def parents_at_link)

lemma raw_inv_add_dependence:
  assumes "raw_inv alloc g" and "P \<in> owned g" and "C \<noteq> alloc 0"
  shows "raw_inv alloc (add_dependence t P C g)"
  using assms by (simp add: add_dependence_def raw_inv_link)

lemma add_dependence_frame [simp]:
  "owned (add_dependence t P C g) = owned g" "bbMap (add_dependence t P C g) = bbMap g"
  by (simp_all add: add_dependence_def)

lemma getNode_const_bbMap_cong:
  "bbMap g' = bbMap g \<Longrightarrow> fst (getNode_const g' W) = fst (getNode_const g W)"
  by (simp add: getNode_const_def)

lemma raw_inv_add_dependences:
  assumes "inj alloc"
  shows "raw_inv alloc g \<Longrightarrow> AN \<in> owned g \<Longrightarrow> add_dependences t AN ws g = Some g'
         \<Longrightarrow> raw_inv alloc g'"
proof (induction ws arbitrary: g)
  case Nil
  then show ?case by simp
next
  case (Cons W ws)
  from Cons.prems(3) obtain CN where CN: "fst (getNode_const g W) = Ptr CN"
      and rest: "add_dependences t AN ws (add_dependence t AN CN g) = Some g'"
    by (auto split: ptr.splits)
  have "CN \<in> owned g \<and> CN \<noteq> alloc 0"
    using bb_ok_lookup [OF _ CN assms] Cons.prems(1) by (simp add: raw_inv_def)
  then have "raw_inv alloc (add_dependence t AN CN g)"
    using Cons.prems(1,2) by (simp add: raw_inv_add_dependence)
  then show ?case
    using Cons.IH [OF _ _ rest] Cons.prems(2) by simp
qed

lemma raw_inv_process_edge:
  assumes "inj alloc" and "raw_inv alloc g" and "process_edge pdt F e g = Some g'"
  shows "raw_inv alloc g'"
proof (cases e)
  case (Pair A B)
  show ?thesis
  proof (cases "postDominates pdt B A")
    case True
    with assms Pair show ?thesis by (simp add: process_edge_def)
  next
    case False
    with assms(3) Pair obtain ws AN where
      "fst (getNode_const g A) = Ptr AN"
      "add_dependences (getEdgeType F A B) AN ws g = Some g'"
      by (auto simp: process_edge_def split: option.splits ptr.splits)
    moreover from this(1) have "AN \<in> owned g"
      using bb_ok_lookup [of alloc g A AN] assms(1,2) by (simp add: raw_inv_def)
    ultimately show ?thesis
      using raw_inv_add_dependences [OF assms(1,2)] by blast
  qed
qed

lemma raw_inv_process_edges:
  assumes "inj alloc"
  shows "raw_inv alloc g \<Longrightarrow> process_edges pdt F es g = Some g' \<Longrightarrow> raw_inv alloc g'"
proof (induction es arbitrary: g)
  case Nil
  then show ?case by simp
next
  case (Cons e es)
  from Cons.prems(2) obtain g1 where g1: "process_edge pdt F e g = Some g1"
      and rest: "process_edges pdt F es g1 = Some g'"
    by (auto split: option.splits)
  show ?case
    using Cons.IH [OF raw_inv_process_edge [OF assms Cons.prems(1) g1] rest] .
qed

subsection \<open>Creating the nodes\<close>

lemma raw_inv_root:
  "raw_inv alloc (snd (new_node alloc NULL empty_graph)\<lparr>root := Ptr (alloc 0)\<rparr>)"
  by (simp add: raw_inv_def keys_ok_def bb_ok_def new_node_def empty_graph_def parents_at_def
      node_at_def owned_def new_ControlDependenceNode_def)

lemma raw_inv_create_step:
  assumes "inj alloc" and "raw_inv alloc g"
  shows "raw_inv alloc (snd (new_node alloc bb g)
            \<lparr>bbMap := map_assign (bbMap (snd (new_node alloc bb g))) b
                        (Ptr (fst (new_node alloc bb g)))\<rparr>)"
proof -
  let ?R = "alloc (length (nodes g))"
  let ?g1 = "snd (new_node alloc bb g)"
  let ?g2 = "?g1\<lparr>bbMap := map_assign (bbMap ?g1) b (Ptr (fst (new_node alloc bb g)))\<rparr>"
  have k: "keys_ok alloc g" and ne: "nodes g \<noteq> []" using assms(2) by (simp_all add: raw_inv_def)
  have fresh: "?R \<notin> owned g" using new_node_fresh [OF assms(1) k] .
  have na: "node_at ?g2 p = (if p = ?R then Some (new_ControlDependenceNode bb) else node_at g p)" for p
    using node_at_new_node [of alloc g bb p] fresh by (simp add: node_at_def)
  have pa: "parents_at ?g2 p = (if p = ?R then [] else parents_at g p)" for p
    by (simp add: parents_at_def na new_ControlDependenceNode_def)
  have ow: "owned ?g2 = insert ?R (owned g)"
    using owned_new_node [of alloc bb g] by (simp add: owned_def)
  have len: "length (nodes ?g2) = Suc (length (nodes g))"
    by (simp add: new_node_def)
  have "keys_ok alloc ?g2"
    using keys_ok_new_node [OF k, of bb] by (simp add: keys_ok_def)
  moreover have "nodes ?g2 \<noteq> []" using len by (metis length_0_conv nat.distinct(1))
  moreover have "root ?g2 = Ptr (alloc 0)" using assms(2) by (simp add: raw_inv_def new_node_def)
  moreover have "bb_ok alloc ?g2"
    unfolding bb_ok_def
  proof (intro allI impI)
    fix b' p assume "(b', p) \<in> set (bbMap ?g2)"
    then have "(b', p) = (b, Ptr ?R) \<or> (b', p) \<in> set (bbMap g)"
      using set_map_assign [of "bbMap g" b "Ptr ?R"] by (auto simp: new_node_def)
    then show "\<exists>k. 0 < k \<and> k < length (nodes ?g2) \<and> p = Ptr (alloc k)"
    proof
      assume "(b', p) = (b, Ptr ?R)"
      then show ?thesis using ne len by (intro exI [of _ "length (nodes g)"]) simp
    next
      assume "(b', p) \<in> set (bbMap g)"
      then obtain k where "0 < k" "k < length (nodes g)" "p = Ptr (alloc k)"
        using assms(2) unfolding raw_inv_def bb_ok_def by blast
      then show ?thesis using len by (intro exI [of _ k]) simp
    qed
  qed
  moreover have "parents_at ?g2 (alloc 0) = []"
    using assms(2) by (simp add: pa raw_inv_def)
  moreover have "\<forall>p. p \<in> owned ?g2 \<longrightarrow> set (parents_at ?g2 p) \<subseteq> owned ?g2"
    using assms(2) by (auto simp: pa ow raw_inv_def)
  ultimately show ?thesis
    unfolding raw_inv_def by blast
qed

lemma raw_inv_create_block_nodes:
  assumes "inj alloc"
  shows "raw_inv alloc g \<Longrightarrow> raw_inv alloc (create_block_nodes alloc bs g)"
proof (induction bs arbitrary: g)
  case Nil
  then show ?case by simp
next
  case (Cons b bs)
  show ?case
    using Cons.IH [OF raw_inv_create_step [OF assms Cons.prems, of "Ptr b" b]]
    by (simp add: case_prod_unfold)
qed

subsection \<open>Attaching the parentless nodes\<close>

lemma attach_to_root_frame:
  "owned (attach_to_root r ps g) = owned g"
  by (induction ps arbitrary: g) simp_all

lemma raw_inv_attach_to_root:
  "raw_inv alloc g \<Longrightarrow> raw_inv alloc (attach_to_root (alloc 0) ps g)"
proof (induction ps arbitrary: g)
  case Nil
  then show ?case by simp
next
  case (Cons p ps)
  have "alloc 0 \<in> owned g"
    using Cons.prems root_owned [of alloc g] by (simp add: raw_inv_def)
  then have "raw_inv alloc (if p \<noteq> alloc 0 \<and> parents_at g p = []
                              then link OTHER (alloc 0) p g else g)"
    using Cons.prems by (simp add: raw_inv_link)
  then show ?case
    using Cons.IH by simp
qed

lemma attach_to_root_parented:
  "(parents_at g x \<noteq> [] \<longrightarrow> parents_at (attach_to_root r ps g) x \<noteq> [])
   \<and> (x \<in> set ps \<longrightarrow> x \<noteq> r \<longrightarrow> x \<in> owned g \<longrightarrow> parents_at (attach_to_root r ps g) x \<noteq> [])"
proof (induction ps arbitrary: g)
  case Nil
  then show ?case by simp
next
  case (Cons p ps)
  let ?g1 = "if p \<noteq> r \<and> parents_at g p = [] then link OTHER r p g else g"
  have mono: "parents_at g x \<noteq> [] \<longrightarrow> parents_at ?g1 x \<noteq> []"
    by (simp add: parents_at_link)
  have here: "x = p \<longrightarrow> x \<noteq> r \<longrightarrow> x \<in> owned g \<longrightarrow> parents_at ?g1 x \<noteq> []"
    by (simp add: parents_at_link)
  have ow: "owned ?g1 = owned g" by simp
  show ?case
    using Cons.IH [of ?g1] mono here ow by auto
qed

lemma computeDependencies_inv:
  assumes "inj alloc" and "computeDependencies alloc pdt F empty_graph = Some g"
  shows "raw_inv alloc g \<and> all_parented (alloc 0) g"
proof -
  let ?g2 = "create_block_nodes alloc (blocks F)
               (snd (new_node alloc NULL empty_graph)\<lparr>root := Ptr (alloc 0)\<rparr>)"
  from assms(2) obtain g3 where g3: "process_edges pdt F (cfg_edges F) ?g2 = Some g3"
      and g: "g = attach_to_root (alloc 0) (map fst (nodes g3)) g3"
    by (auto simp: computeDependencies_def new_node_def empty_graph_def split: option.splits)
  have "raw_inv alloc ?g2"
    using raw_inv_create_block_nodes [OF assms(1) raw_inv_root] .
  then have i3: "raw_inv alloc g3"
    using raw_inv_process_edges [OF assms(1) _ g3] by blast
  then have "raw_inv alloc g"
    unfolding g by (rule raw_inv_attach_to_root)
  moreover have "all_parented (alloc 0) g"
    unfolding all_parented_def
  proof (intro allI impI)
    fix p assume "p \<in> owned g" and ne: "p \<noteq> alloc 0"
    then have o3: "p \<in> owned g3" by (simp add: g attach_to_root_frame)
    then have "p \<in> set (map fst (nodes g3))" by (simp add: owned_def)
    then show "parents_at g p \<noteq> []"
      using attach_to_root_parented [of g3 p "alloc 0" "map fst (nodes g3)"] o3 ne
      unfolding g by blast
  qed
  ultimately show ?thesis by blast
qed

subsection \<open>Inserting one region\<close>

lemma Parents_redirect [simp]: "Parents (redirect rep ms R n) = Parents n"
  by (simp add: redirect_def)

lemma Parents_addOther [simp]: "Parents (addOther m n) = Parents n"
  by (simp add: addOther_def)

lemma fold_update_frame [simp]:
  "owned (fold (\<lambda>x. update_node (k x) (f x)) xs h) = owned h"
  "keys_ok alloc (fold (\<lambda>x. update_node (k x) (f x)) xs h) = keys_ok alloc h"
  "root (fold (\<lambda>x. update_node (k x) (f x)) xs h) = root h"
  "bbMap (fold (\<lambda>x. update_node (k x) (f x)) xs h) = bbMap h"
  "length (nodes (fold (\<lambda>x. update_node (k x) (f x)) xs h)) = length (nodes h)"
  by (induction xs arbitrary: h) simp_all

lemma fold_update2_frame [simp]:
  "owned (fold (\<lambda>x h. update_node (k x) (f x) (update_node (k' x) (f' x) h)) xs h) = owned h"
  "keys_ok alloc (fold (\<lambda>x h. update_node (k x) (f x) (update_node (k' x) (f' x) h)) xs h)
     = keys_ok alloc h"
  "root (fold (\<lambda>x h. update_node (k x) (f x) (update_node (k' x) (f' x) h)) xs h) = root h"
  "bbMap (fold (\<lambda>x h. update_node (k x) (f x) (update_node (k' x) (f' x) h)) xs h) = bbMap h"
  "length (nodes (fold (\<lambda>x h. update_node (k x) (f x) (update_node (k' x) (f' x) h)) xs h))
     = length (nodes h)"
  by (induction xs arbitrary: h) simp_all

lemma parents_at_reparent:
  "parents_at (update_node m (\<lambda>n. addParent R (clearAllParents n)) h) p =
     (if p = m \<and> p \<in> owned h then [R] else parents_at h p)"
  using node_at_None_iff [of h p]
  by (auto simp: parents_at_def node_at_update_node addParent_def clearAllParents_def
      split: option.splits)

lemma parents_at_fold_reparent:
  "parents_at (fold (\<lambda>m. update_node m (\<lambda>n. addParent R (clearAllParents n))) ms h) p =
     (if p \<in> set ms \<and> p \<in> owned h then [R] else parents_at h p)"
  by (induction ms arbitrary: h) (auto simp: parents_at_reparent)

lemma parents_at_unchanged:
  "(\<And>n. Parents (f n) = Parents n) \<Longrightarrow> parents_at (update_node q f h) p = parents_at h p"
  by (auto simp: parents_at_def node_at_update_node split: option.splits)

lemma parents_at_fold_addOther:
  "parents_at (fold (\<lambda>m. update_node R (addOther m)) ms h) p = parents_at h p"
  by (induction ms arbitrary: h) (simp_all add: parents_at_unchanged)

lemma parents_at_addParent:
  "parents_at (update_node R (addParent Q) h) p =
     (if p = R \<and> R \<in> owned h then parents_at h R @ [Q] else parents_at h p)"
  using node_at_None_iff [of h p]
  by (auto simp: parents_at_def node_at_update_node split: option.splits)

lemma parents_at_fold_redirect:
  "parents_at (fold (\<lambda>Q h. update_node R (addParent Q) (update_node Q (redirect rep ms R) h)) qs h) p
     = (if p = R \<and> R \<in> owned h then parents_at h R @ qs else parents_at h p)"
  by (induction qs arbitrary: h) (simp_all add: parents_at_addParent parents_at_unchanged)

lemma insert_region_frame:
  "keys_ok alloc g \<Longrightarrow> keys_ok alloc (insert_region alloc ms g)"
  "root (insert_region alloc ms g) = root g"
  "bbMap (insert_region alloc ms g) = bbMap g"
  by (cases ms; simp add: keys_ok_new_node [unfolded new_node_def snd_conv] new_node_def)+

lemma length_insert_region:
  "ms \<noteq> [] \<Longrightarrow> length (nodes (insert_region alloc ms g)) = Suc (length (nodes g))"
  by (cases ms) (simp_all add: new_node_def)

lemma owned_insert_region:
  "ms \<noteq> [] \<Longrightarrow> owned (insert_region alloc ms g) = insert (alloc (length (nodes g))) (owned g)"
  using owned_new_node [of alloc NULL g] by (cases ms) (simp_all add: new_node_def)

lemma insert_region_unfold:
  "ms = rep # others \<Longrightarrow>
   insert_region alloc ms g =
     fold (\<lambda>m. update_node m (\<lambda>n. addParent (alloc (length (nodes g))) (clearAllParents n))) ms
       (fold (\<lambda>m. update_node (alloc (length (nodes g))) (addOther m)) ms
         (fold (\<lambda>Q h. update_node (alloc (length (nodes g))) (addParent Q)
                         (update_node Q (redirect rep ms (alloc (length (nodes g)))) h))
            (parents_at g rep) (snd (new_node alloc NULL g))))"
  by (simp add: new_node_def)

lemma parents_at_insert_region:
  assumes "alloc (length (nodes g)) \<notin> owned g" and "set ms \<subseteq> owned g" and "ms = rep # others"
  shows "parents_at (insert_region alloc ms g) p =
     (if p \<in> set ms then [alloc (length (nodes g))]
      else if p = alloc (length (nodes g)) then parents_at g rep
      else parents_at g p)"
proof -
  let ?R = "alloc (length (nodes g))"
  let ?g1 = "snd (new_node alloc NULL g)"
  have p1: "parents_at ?g1 x = (if x = ?R then [] else parents_at g x)" for x
    using node_at_new_node [of alloc g NULL x] assms(1)
    by (simp add: parents_at_def new_ControlDependenceNode_def)
  have o1: "owned ?g1 = insert ?R (owned g)"
    by (rule owned_new_node)
  have "p \<in> set ms \<Longrightarrow> p \<noteq> ?R"
    using assms by auto
  then show ?thesis
    unfolding insert_region_unfold [OF assms(3)]
    using assms(2)
    by (auto simp: parents_at_fold_reparent parents_at_fold_addOther parents_at_fold_redirect
        p1 o1)
qed

subsection \<open>The partition\<close>

lemma same_parent_set_iff: "same_parent_set ps qs \<longleftrightarrow> set ps = set qs"
  by (auto simp: same_parent_set_def list_all_iff)

lemma partition_nonempty: "[] \<notin> set (partition_by_parents xs)"
  by (induction xs rule: partition_by_parents.induct) simp_all

lemma partition_members: "set (concat (partition_by_parents xs)) = fst ` set xs"
proof (induction xs rule: partition_by_parents.induct)
  case 1
  then show ?case by simp
next
  case (2 p n rest)
  have "fst ` set rest =
        fst ` {x \<in> set rest. case x of (q, m) \<Rightarrow> same_parent_set (Parents m) (Parents n)}
        \<union> fst ` {x \<in> set rest. case x of (q, m) \<Rightarrow> \<not> same_parent_set (Parents m) (Parents n)}"
    by auto
  with 2 show ?case by simp
qed

lemma partition_part_subset:
  "ms \<in> set (partition_by_parents xs) \<Longrightarrow> set ms \<subseteq> fst ` set xs"
  using partition_members [of xs] by auto

lemma non_root_nodes_keys:
  "fst ` set (non_root_nodes g) = {p \<in> owned g. Ptr p \<noteq> root g}"
  by (auto simp: non_root_nodes_def owned_def image_iff)

subsection \<open>Every node but the root has a parent\<close>

text \<open>The invariant that the Region Compactor keeps.\<close>

definition parented_inv :: "(nat \<Rightarrow> node_ref) \<Rightarrow> ControlDependenceGraph \<Rightarrow> bool" where
  "parented_inv alloc g =
     (keys_ok alloc g \<and> nodes g \<noteq> [] \<and> root g = Ptr (alloc 0)
      \<and> parents_at g (alloc 0) = [] \<and> all_parented (alloc 0) g)"

lemma parented_inv_insert_region:
  assumes "inj alloc" and "parented_inv alloc g" and "ms \<noteq> []" and "set ms \<subseteq> owned g"
    and "alloc 0 \<notin> set ms"
  shows "parented_inv alloc (insert_region alloc ms g)"
proof -
  obtain rep others where ms: "ms = rep # others"
    using assms(3) by (cases ms) auto
  let ?R = "alloc (length (nodes g))"
  have k: "keys_ok alloc g" and ne: "nodes g \<noteq> []" and rt: "root g = Ptr (alloc 0)"
    and p0: "parents_at g (alloc 0) = []" and ap: "all_parented (alloc 0) g"
    using assms(2) by (simp_all add: parented_inv_def)
  have fresh: "?R \<notin> owned g" using new_node_fresh [OF assms(1) k] .
  have r0: "alloc 0 \<in> owned g" using root_owned [OF k ne] .
  have pa: "parents_at (insert_region alloc ms g) p =
     (if p \<in> set ms then [?R] else if p = ?R then parents_at g rep else parents_at g p)" for p
    using parents_at_insert_region [of alloc g ms rep others p] fresh assms(4) ms by blast
  have rep: "rep \<in> owned g" "rep \<noteq> alloc 0"
    using assms(4,5) ms by auto
  then have prep: "parents_at g rep \<noteq> []"
    using ap by (simp add: all_parented_def)
  have "keys_ok alloc (insert_region alloc ms g)"
    using insert_region_frame(1) [OF k] .
  moreover have "nodes (insert_region alloc ms g) \<noteq> []"
    using length_insert_region [OF assms(3), of alloc g] by (metis length_0_conv nat.distinct(1))
  moreover have "root (insert_region alloc ms g) = Ptr (alloc 0)"
    using rt by (simp add: insert_region_frame)
  moreover have "parents_at (insert_region alloc ms g) (alloc 0) = []"
    using assms(5) fresh r0 p0 by (auto simp: pa)
  moreover have "all_parented (alloc 0) (insert_region alloc ms g)"
    using ap prep unfolding all_parented_def
    by (auto simp: pa owned_insert_region [OF assms(3)])
  ultimately show ?thesis
    unfolding parented_inv_def by blast
qed

lemma parented_inv_fold_insert_region:
  assumes "inj alloc"
  shows "parented_inv alloc g \<Longrightarrow>
         (\<And>ms. ms \<in> set pss \<Longrightarrow> ms \<noteq> [] \<and> set ms \<subseteq> owned g \<and> alloc 0 \<notin> set ms) \<Longrightarrow>
         parented_inv alloc (fold (insert_region alloc) pss g)"
proof (induction pss arbitrary: g)
  case Nil
  then show ?case by simp
next
  case (Cons ms pss)
  have here: "ms \<noteq> []" "set ms \<subseteq> owned g" "alloc 0 \<notin> set ms"
    using Cons.prems(2) [of ms] by simp_all
  have i1: "parented_inv alloc (insert_region alloc ms g)"
    using parented_inv_insert_region [OF assms Cons.prems(1) here] .
  have "ms' \<noteq> [] \<and> set ms' \<subseteq> owned (insert_region alloc ms g) \<and> alloc 0 \<notin> set ms'"
    if "ms' \<in> set pss" for ms'
    using Cons.prems(2) [of ms'] that by (auto simp: owned_insert_region [OF here(1)])
  then show ?case
    using Cons.IH [OF i1] by simp
qed

lemma insertRegions_parented:
  assumes "inj alloc" and "parented_inv alloc g"
  shows "parented_inv alloc (insertRegions alloc g)"
  unfolding insertRegions_def
proof (rule parented_inv_fold_insert_region [OF assms])
  fix ms
  assume "ms \<in> set (filter (\<lambda>ms. 1 < length ms) (partition_by_parents (non_root_nodes g)))"
  then have m: "ms \<in> set (partition_by_parents (non_root_nodes g))" and "1 < length ms"
    by simp_all
  then have "ms \<noteq> []" by auto
  moreover have "set ms \<subseteq> {p \<in> owned g. Ptr p \<noteq> root g}"
    using partition_part_subset [OF m] by (simp add: non_root_nodes_keys)
  moreover have "root g = Ptr (alloc 0)"
    using assms(2) by (simp add: parented_inv_def)
  ultimately show "ms \<noteq> [] \<and> set ms \<subseteq> owned g \<and> alloc 0 \<notin> set ms"
    by auto
qed

lemma node_at_entry:
  assumes "distinct (map fst (nodes g))" and "(p, n) \<in> set (nodes g)"
  shows "node_at g p = Some n"
  using assms by (simp add: node_at_def)

text \<open>
  C3. In the graph that \<open>runOnFunction\<close> returns, the root is a node of the graph with no
  parent (\<open>getNumParents\<close> is 0), and every other node of the graph has at least one
  parent (\<open>getNumParents\<close> is at least 1). The allocator gives distinct nodes distinct
  addresses.
\<close>

theorem every_node_but_root_has_parent:
  assumes "inj alloc" and "runOnFunction alloc pdt F = Some g"
  shows "(\<exists>r n. root g = Ptr r \<and> (r, n) \<in> set (nodes g))
       \<and> (\<forall>(p, n) \<in> set (nodes g).
            if Ptr p = root g then getNumParents n = 0 else 1 \<le> getNumParents n)"
proof -
  from assms(2) obtain g0 where raw: "computeDependencies alloc pdt F empty_graph = Some g0"
      and g: "g = insertRegions alloc g0"
    by (auto simp: runOnFunction_def)
  have "parented_inv alloc g0"
    using computeDependencies_inv [OF assms(1) raw] by (simp add: parented_inv_def raw_inv_def)
  then have inv: "parented_inv alloc g"
    unfolding g by (rule insertRegions_parented [OF assms(1)])
  then have k: "keys_ok alloc g" and ne: "nodes g \<noteq> []" and rt: "root g = Ptr (alloc 0)"
    and p0: "parents_at g (alloc 0) = []" and ap: "all_parented (alloc 0) g"
    by (simp_all add: parented_inv_def)
  have d: "distinct (map fst (nodes g))"
    using distinct_keys_ok [OF assms(1) k] .
  have "alloc 0 \<in> owned g" using root_owned [OF k ne] .
  then have first: "\<exists>r n. root g = Ptr r \<and> (r, n) \<in> set (nodes g)"
    using rt by (auto simp: owned_def)
  have each: "if Ptr p = root g then getNumParents n = 0 else 1 \<le> getNumParents n"
    if "(p, n) \<in> set (nodes g)" for p n
  proof -
    have na: "node_at g p = Some n" using node_at_entry [OF d that] .
    then have pa: "parents_at g p = Parents n" by (simp add: parents_at_def)
    have "p \<in> owned g" using that by (force simp: owned_def)
    then have "p \<noteq> alloc 0 \<Longrightarrow> Parents n \<noteq> []"
      using ap pa by (auto simp: all_parented_def)
    moreover have "p = alloc 0 \<Longrightarrow> Parents n = []"
      using p0 pa by simp
    ultimately show ?thesis
      by (cases "Parents n") (auto simp: rt getNumParents_def)
  qed
  show ?thesis
  proof (intro conjI ballI)
    show "\<exists>r n. root g = Ptr r \<and> (r, n) \<in> set (nodes g)" by (rule first)
  next
    fix x assume "x \<in> set (nodes g)"
    then show "case x of (p, n) \<Rightarrow>
        if Ptr p = root g then getNumParents n = 0 else 1 \<le> getNumParents n"
      using each [of "fst x" "snd x"] by (simp add: case_prod_unfold)
  qed
qed

theorem every_node_but_root_has_parent_witness:
  "inj (id :: nat \<Rightarrow> nat) \<and> runOnFunction id diamond_pdt diamond_cfg = Some diamond_compacted
   \<and> root diamond_compacted = Ptr 0
   \<and> list_all (\<lambda>(p, n). if Ptr p = root diamond_compacted then getNumParents n = 0
                              else 1 \<le> getNumParents n) (nodes diamond_compacted)"
  using every_node_but_root_has_parent [OF inj_on_id diamond_run]
  by (simp add: list_all_iff diamond_run) (simp add: diamond_compacted_def)


section \<open>Node identity\<close>

text \<open>
  Renaming the node addresses of a graph by \<open>f\<close>: every pointer to a node, in \<open>root\<close>, in
  the keys of the store, in the parent and child lists, and in the index, is replaced by
  its image; blocks, labels and the order of every list stay as they are.
\<close>

definition rename_node :: "(node_ref \<Rightarrow> node_ref) \<Rightarrow> ControlDependenceNode \<Rightarrow> ControlDependenceNode" where
  "rename_node f n =
     \<lparr>TheBB = TheBB n, Parents = map f (Parents n), TrueChildren = map f (TrueChildren n),
      FalseChildren = map f (FalseChildren n), OtherChildren = map f (OtherChildren n)\<rparr>"

definition rename_graph :: "(node_ref \<Rightarrow> node_ref) \<Rightarrow> ControlDependenceGraph \<Rightarrow> ControlDependenceGraph" where
  "rename_graph f g =
     \<lparr>root = map_ptr f (root g),
      nodes = map (\<lambda>(p, n). (f p, rename_node f n)) (nodes g),
      bbMap = map (\<lambda>(b, p). (b, map_ptr f p)) (bbMap g)\<rparr>"

lemma rename_graph_sel [simp]:
  "root (rename_graph f g) = map_ptr f (root g)"
  "nodes (rename_graph f g) = map (\<lambda>(p, n). (f p, rename_node f n)) (nodes g)"
  "bbMap (rename_graph f g) = map (\<lambda>(b, p). (b, map_ptr f p)) (bbMap g)"
  by (simp_all add: rename_graph_def)

lemma rename_node_sel [simp]:
  "TheBB (rename_node f n) = TheBB n"
  "Parents (rename_node f n) = map f (Parents n)"
  "TrueChildren (rename_node f n) = map f (TrueChildren n)"
  "FalseChildren (rename_node f n) = map f (FalseChildren n)"
  "OtherChildren (rename_node f n) = map f (OtherChildren n)"
  by (simp_all add: rename_node_def)

lemma rename_empty_graph [simp]: "rename_graph f empty_graph = empty_graph"
  by (simp add: rename_graph_def empty_graph_def)

lemma node_at_rename:
  assumes "inj f"
  shows "node_at (rename_graph f g) (f p) = map_option (rename_node f) (node_at g p)"
proof -
  have "map_of (map (\<lambda>(q, n). (f q, rename_node f n)) xs) (f p)
        = map_option (rename_node f) (map_of xs p)" for xs
    using assms by (induction xs) (auto simp: inj_eq)
  then show ?thesis by (simp add: node_at_def)
qed

lemma parents_at_rename:
  "inj f \<Longrightarrow> parents_at (rename_graph f g) (f p) = map f (parents_at g p)"
  by (simp add: parents_at_def node_at_rename split: option.splits)

lemma children_of_rename [simp]: "children_of t (rename_node f n) = map f (children_of t n)"
  by (cases t) (simp_all add: children_of_def)

lemma children_at_rename:
  "inj f \<Longrightarrow> children_at (rename_graph f g) t (f p) = map f (children_at g t p)"
  by (simp add: children_at_def node_at_rename split: option.splits)

lemma update_node_rename:
  assumes "inj f" and "\<And>n. u' (rename_node f n) = rename_node f (u n)"
  shows "update_node (f p) u' (rename_graph f g) = rename_graph f (update_node p u g)"
  using assms by (simp add: rename_graph_def update_node_def inj_eq case_prod_unfold)

lemma addParent_rename: "addParent (f P) (rename_node f n) = rename_node f (addParent P n)"
  by (simp add: rename_node_def addParent_def)

lemma addOther_rename: "addOther (f C) (rename_node f n) = rename_node f (addOther C n)"
  by (simp add: rename_node_def addOther_def)

lemma addChild_rename: "addChild t (f C) (rename_node f n) = rename_node f (addChild t C n)"
  by (cases t) (simp_all add: rename_node_def addChild_def addTrue_def addFalse_def addOther_def)

lemma reparent_rename:
  "addParent (f R) (clearAllParents (rename_node f n)) = rename_node f (addParent R (clearAllParents n))"
  by (simp add: rename_node_def addParent_def clearAllParents_def)

lemma redirect_children_rename:
  assumes "inj f"
  shows "redirect_children (f rep) (map f ms) (f R) (map f cs) = map f (redirect_children rep ms R cs)"
proof -
  have "filter (\<lambda>c. c \<notin> set (map f ms)) (map f cs) = map f (filter (\<lambda>c. c \<notin> set ms) cs)"
    using assms by (induction cs) (auto simp: inj_eq)
  moreover have "f rep \<in> set (map f cs) \<longleftrightarrow> rep \<in> set cs"
    using assms by (auto simp: inj_eq)
  ultimately show ?thesis
    by (simp add: redirect_children_def)
qed

lemma redirect_rename:
  "inj f \<Longrightarrow> redirect (f rep) (map f ms) (f R) (rename_node f n) = rename_node f (redirect rep ms R n)"
  by (simp add: redirect_def rename_node_def redirect_children_rename)

lemma link_rename:
  "inj f \<Longrightarrow> link t (f P) (f C) (rename_graph f g) = rename_graph f (link t P C g)"
  by (simp add: link_def update_node_rename addParent_rename addChild_rename)

lemma add_dependence_rename:
  "inj f \<Longrightarrow> add_dependence t (f P) (f C) (rename_graph f g) = rename_graph f (add_dependence t P C g)"
  by (auto simp: add_dependence_def link_rename children_at_rename inj_eq)

lemma getNode_const_rename:
  "fst (getNode_const (rename_graph f g) W) = map_ptr f (fst (getNode_const g W))"
proof -
  have "map_of (map (\<lambda>(b, p). (b, map_ptr f p)) m) W = map_option (map_ptr f) (map_of m W)" for m
    by (induction m) auto
  then show ?thesis
    by (auto simp: getNode_const_def)
qed

lemma add_dependences_rename:
  assumes "inj f"
  shows "add_dependences t (f AN) ws (rename_graph f g)
         = map_option (rename_graph f) (add_dependences t AN ws g)"
proof (induction ws arbitrary: g)
  case Nil
  then show ?case by simp
next
  case (Cons W ws)
  show ?case
    by (cases "fst (getNode_const g W)")
       (simp_all add: getNode_const_rename add_dependence_rename [OF assms] Cons.IH)
qed

lemma process_edge_rename:
  assumes "inj f"
  shows "process_edge pdt F e (rename_graph f g) = map_option (rename_graph f) (process_edge pdt F e g)"
proof (cases e)
  case (Pair A B)
  show ?thesis
    by (cases "fst (getNode_const g A)")
       (simp_all add: Pair process_edge_def getNode_const_rename add_dependences_rename [OF assms]
          split: option.splits)
qed

lemma process_edges_rename:
  assumes "inj f"
  shows "process_edges pdt F es (rename_graph f g)
         = map_option (rename_graph f) (process_edges pdt F es g)"
proof (induction es arbitrary: g)
  case Nil
  then show ?case by simp
next
  case (Cons e es)
  show ?case
    by (cases "process_edge pdt F e g") (simp_all add: process_edge_rename [OF assms] Cons.IH)
qed

lemma new_node_rename:
  "new_node (\<lambda>k. f (a k)) bb (rename_graph f g)
   = (f (fst (new_node a bb g)), rename_graph f (snd (new_node a bb g)))"
  by (simp add: new_node_def rename_graph_def rename_node_def new_ControlDependenceNode_def)

lemma insort_key_fst_map_values:
  "insort_key fst (k, h v) (map (\<lambda>(b, p). (b, h p)) m) = map (\<lambda>(b, p). (b, h p)) (insort_key fst (k, v) m)"
  by (induction m) auto

lemma map_assign_rename:
  "map_assign (map (\<lambda>(b, p). (b, h p)) m) k (h v) = map (\<lambda>(b, p). (b, h p)) (map_assign m k v)"
proof -
  have 1: "map_of (map (\<lambda>(b, p). (b, h p)) m) k = map_option h (map_of m k)"
    by (induction m) auto
  have 2: "map (\<lambda>(k', v'). if k' = k then (k', h v) else (k', v')) (map (\<lambda>(b, p). (b, h p)) m)
        = map (\<lambda>(b, p). (b, h p)) (map (\<lambda>(k', v'). if k' = k then (k', v) else (k', v')) m)"
    by (induction m) auto
  show ?thesis
    unfolding map_assign_def 1 2 by (simp add: insort_key_fst_map_values)
qed

lemma bbMap_update_rename:
  "rename_graph f g\<lparr>bbMap := map (\<lambda>(b, p). (b, map_ptr f p)) m\<rparr> = rename_graph f (g\<lparr>bbMap := m\<rparr>)"
  by (simp add: rename_graph_def)

lemma root_update_rename:
  "rename_graph f g\<lparr>root := Ptr (f r)\<rparr> = rename_graph f (g\<lparr>root := Ptr r\<rparr>)"
  by (simp add: rename_graph_def)

lemma create_block_nodes_rename:
  "create_block_nodes (\<lambda>k. f (a k)) bs (rename_graph f g)
   = rename_graph f (create_block_nodes a bs g)"
proof (induction bs arbitrary: g)
  case Nil
  then show ?case by simp
next
  case (Cons b bs)
  let ?g1 = "snd (new_node a (Ptr b) g)"
  let ?p = "fst (new_node a (Ptr b) g)"
  have "map_assign (bbMap (rename_graph f ?g1)) b (Ptr (f ?p))
        = map (\<lambda>(b, p). (b, map_ptr f p)) (map_assign (bbMap ?g1) b (Ptr ?p))"
    using map_assign_rename [of "map_ptr f" "bbMap ?g1" b "Ptr ?p"] by simp
  then have "rename_graph f ?g1\<lparr>bbMap := map_assign (bbMap (rename_graph f ?g1)) b (Ptr (f ?p))\<rparr>
        = rename_graph f (?g1\<lparr>bbMap := map_assign (bbMap ?g1) b (Ptr ?p)\<rparr>)"
    by (simp only: bbMap_update_rename)
  then show ?case
    by (simp add: new_node_rename case_prod_unfold Cons.IH)
qed

lemma attach_to_root_rename:
  assumes "inj f"
  shows "attach_to_root (f r) (map f ps) (rename_graph f g) = rename_graph f (attach_to_root r ps g)"
proof (induction ps arbitrary: g)
  case Nil
  then show ?case by simp
next
  case (Cons p ps)
  show ?case
    using assms
    by (simp add: parents_at_rename link_rename inj_eq Cons.IH)
qed

lemma keys_rename: "map fst (nodes (rename_graph f g)) = map f (map fst (nodes g))"
  by (simp add: case_prod_unfold comp_def)

lemma computeDependencies_rename:
  assumes "inj f"
  shows "computeDependencies (\<lambda>k. f (a k)) pdt F (rename_graph f g)
         = map_option (rename_graph f) (computeDependencies a pdt F g)"
proof -
  let ?g1 = "snd (new_node a NULL g)"
  let ?r = "fst (new_node a NULL g)"
  let ?g2 = "create_block_nodes a (blocks F) (?g1\<lparr>root := Ptr ?r\<rparr>)"
  have 2: "create_block_nodes (\<lambda>k. f (a k)) (blocks F) (rename_graph f ?g1\<lparr>root := Ptr (f ?r)\<rparr>)
        = rename_graph f ?g2"
    by (simp only: root_update_rename create_block_nodes_rename)
  show ?thesis
  proof (cases "process_edges pdt F (cfg_edges F) ?g2")
    case None
    then show ?thesis
      by (simp add: computeDependencies_def new_node_rename case_prod_unfold 2
          process_edges_rename [OF assms])
  next
    case (Some g3)
    have "attach_to_root (f ?r) (map fst (nodes (rename_graph f g3))) (rename_graph f g3)
          = rename_graph f (attach_to_root ?r (map fst (nodes g3)) g3)"
      by (simp only: keys_rename attach_to_root_rename [OF assms])
    then show ?thesis
      using Some
      by (simp add: computeDependencies_def new_node_rename case_prod_unfold 2
          process_edges_rename [OF assms])
  qed
qed

lemma same_parent_set_rename:
  "inj f \<Longrightarrow> same_parent_set (map f ps) (map f qs) = same_parent_set ps qs"
  by (simp add: same_parent_set_iff inj_image_eq_iff)

lemma partition_by_parents_rename:
  assumes "inj f"
  shows "partition_by_parents (map (\<lambda>(p, n). (f p, rename_node f n)) xs)
         = map (map f) (partition_by_parents xs)"
proof (induction xs rule: partition_by_parents.induct)
  case 1
  then show ?case by simp
next
  case (2 p n rest)
  let ?h = "\<lambda>(p, n). (f p, rename_node f n)"
  have same: "filter (\<lambda>(q, m). same_parent_set (Parents m) (Parents (rename_node f n))) (map ?h rest)
        = map ?h (filter (\<lambda>(q, m). same_parent_set (Parents m) (Parents n)) rest)"
    using assms by (induction rest) (auto simp: same_parent_set_rename)
  have other: "filter (\<lambda>(q, m). \<not> same_parent_set (Parents m) (Parents (rename_node f n))) (map ?h rest)
        = map ?h (filter (\<lambda>(q, m). \<not> same_parent_set (Parents m) (Parents n)) rest)"
    using assms by (induction rest) (auto simp: same_parent_set_rename)
  have fst_h: "map fst (map ?h ys) = map f (map fst ys)" for ys
    by (simp add: case_prod_unfold comp_def)
  have "partition_by_parents (map ?h ((p, n) # rest))
      = (f p # map fst (filter (\<lambda>(q, m). same_parent_set (Parents m) (Parents (rename_node f n)))
                          (map ?h rest)))
        # partition_by_parents
            (filter (\<lambda>(q, m). \<not> same_parent_set (Parents m) (Parents (rename_node f n)))
               (map ?h rest))"
    by simp
  also have "\<dots> = map (map f) (partition_by_parents ((p, n) # rest))"
    unfolding same other fst_h using "2.IH" by simp
  finally show ?case .
qed

lemma non_root_nodes_rename:
  assumes "inj f"
  shows "non_root_nodes (rename_graph f g) = map (\<lambda>(p, n). (f p, rename_node f n)) (non_root_nodes g)"
proof -
  have "Ptr (f p) \<noteq> map_ptr f r \<longleftrightarrow> Ptr p \<noteq> r" for p r
    using assms by (cases r) (simp_all add: inj_eq)
  then show ?thesis
    by (simp add: non_root_nodes_def filter_map comp_def case_prod_unfold)
qed

lemma fold_rename:
  assumes "\<And>x h. G (e x) (rename_graph f h) = rename_graph f (H x h)"
  shows "fold G (map e xs) (rename_graph f h) = rename_graph f (fold H xs h)"
  by (induction xs arbitrary: h) (simp_all add: assms)

lemma insert_region_rename:
  assumes "inj f"
  shows "insert_region (\<lambda>k. f (a k)) (map f ms) (rename_graph f g)
         = rename_graph f (insert_region a ms g)"
proof (cases ms)
  case Nil
  then show ?thesis by simp
next
  case (Cons rep others)
  let ?R = "a (length (nodes g))"
  let ?g1 = "snd (new_node a NULL g)"
  have len: "length (nodes (rename_graph f g)) = length (nodes g)" by simp
  have fm: "map f ms = f rep # map f others" using Cons by simp
  have g1: "snd (new_node (\<lambda>k. f (a k)) NULL (rename_graph f g)) = rename_graph f ?g1"
    by (simp add: new_node_rename)
  have s1: "fold (\<lambda>Q h. update_node (f ?R) (addParent Q)
                      (update_node Q (redirect (f rep) (map f ms) (f ?R)) h))
              (map f (parents_at g rep)) (rename_graph f ?g1)
         = rename_graph f
             (fold (\<lambda>Q h. update_node ?R (addParent Q) (update_node Q (redirect rep ms ?R) h))
                (parents_at g rep) ?g1)"
    by (rule fold_rename)
       (simp add: update_node_rename [OF assms] addParent_rename redirect_rename [OF assms])
  have s2: "fold (\<lambda>m. update_node (f ?R) (addOther m)) (map f ms) (rename_graph f h)
         = rename_graph f (fold (\<lambda>m. update_node ?R (addOther m)) ms h)" for h
    by (rule fold_rename) (simp add: update_node_rename [OF assms] addOther_rename)
  have s3: "fold (\<lambda>m. update_node m (\<lambda>n. addParent (f ?R) (clearAllParents n))) (map f ms)
              (rename_graph f h)
         = rename_graph f (fold (\<lambda>m. update_node m (\<lambda>n. addParent ?R (clearAllParents n))) ms h)"
    for h
    by (rule fold_rename) (simp add: update_node_rename [OF assms] reparent_rename)
  show ?thesis
    unfolding insert_region_unfold [OF fm] insert_region_unfold [OF Cons] len g1
      parents_at_rename [OF assms] s1 s2 s3 ..
qed

lemma insertRegions_rename:
  assumes "inj f"
  shows "insertRegions (\<lambda>k. f (a k)) (rename_graph f g) = rename_graph f (insertRegions a g)"
proof -
  have "filter (\<lambda>ms. 1 < length ms) (map (map f) pss) = map (map f) (filter (\<lambda>ms. 1 < length ms) pss)"
    for pss
    by (induction pss) auto
  then have "filter (\<lambda>ms. 1 < length ms) (partition_by_parents (non_root_nodes (rename_graph f g)))
        = map (map f) (filter (\<lambda>ms. 1 < length ms) (partition_by_parents (non_root_nodes g)))"
    by (simp add: non_root_nodes_rename [OF assms] partition_by_parents_rename [OF assms])
  moreover have "fold (insert_region (\<lambda>k. f (a k))) (map (map f) pss) (rename_graph f h)
        = rename_graph f (fold (insert_region a) pss h)" for pss h
    by (rule fold_rename) (rule insert_region_rename [OF assms])
  ultimately show ?thesis
    by (simp add: insertRegions_def)
qed

lemma runOnFunction_rename:
  assumes "inj f"
  shows "runOnFunction (\<lambda>k. f (a k)) pdt F = map_option (rename_graph f) (runOnFunction a pdt F)"
proof -
  have "computeDependencies (\<lambda>k. f (a k)) pdt F empty_graph
        = map_option (rename_graph f) (computeDependencies a pdt F empty_graph)"
    using computeDependencies_rename [OF assms, of a pdt F empty_graph] by simp
  then show ?thesis
    by (cases "computeDependencies a pdt F empty_graph")
       (simp_all add: runOnFunction_def insertRegions_rename [OF assms])
qed

lemma rename_node_comp: "rename_node h (rename_node f n) = rename_node (\<lambda>p. h (f p)) n"
  by (simp add: rename_node_def comp_def)

lemma rename_graph_comp: "rename_graph h (rename_graph f g) = rename_graph (\<lambda>p. h (f p)) g"
proof -
  have "map_ptr h (map_ptr f r) = map_ptr (\<lambda>p. h (f p)) r" for r :: "node_ref ptr"
    by (cases r) simp_all
  then show ?thesis
    by (simp add: rename_graph_def rename_node_comp case_prod_unfold comp_def)
qed

text \<open>
  C7. Two runs of the construction on the same procedure with the same post-dominator
  tree differ at most in the addresses that the allocator gives to the nodes: with
  allocators \<open>alloc1\<close> and \<open>alloc2\<close> that give distinct nodes distinct addresses, both
  results are renamings of one graph (the one built when the \<open>k\<close>-th node gets the
  address \<open>k\<close>), and the second result is the first with every node address
  \<open>alloc1 k\<close> replaced by \<open>alloc2 k\<close>, in \<open>root\<close>, in the nodes with their parent and
  labelled child lists, and in the block-to-node index; either both runs produce a
  graph or neither does.
\<close>

theorem construction_deterministic:
  assumes "inj alloc1" and "inj alloc2"
  shows "runOnFunction alloc1 pdt F = map_option (rename_graph alloc1) (runOnFunction id pdt F)
       \<and> runOnFunction alloc2 pdt F = map_option (rename_graph alloc2) (runOnFunction id pdt F)
       \<and> runOnFunction alloc2 pdt F
           = map_option (rename_graph (\<lambda>p. alloc2 (inv alloc1 p))) (runOnFunction alloc1 pdt F)
       \<and> inj_on (\<lambda>p. alloc2 (inv alloc1 p)) (range alloc1)"
proof -
  have 1: "runOnFunction alloc1 pdt F = map_option (rename_graph alloc1) (runOnFunction id pdt F)"
    using runOnFunction_rename [OF assms(1), of id pdt F] by (simp add: id_def)
  have 2: "runOnFunction alloc2 pdt F = map_option (rename_graph alloc2) (runOnFunction id pdt F)"
    using runOnFunction_rename [OF assms(2), of id pdt F] by (simp add: id_def)
  have round_trip: "rename_graph (\<lambda>p. alloc2 (inv alloc1 p)) (rename_graph alloc1 c)
        = rename_graph alloc2 c" for c
    using assms(1) by (simp add: rename_graph_comp)
  have 3: "runOnFunction alloc2 pdt F
           = map_option (rename_graph (\<lambda>p. alloc2 (inv alloc1 p))) (runOnFunction alloc1 pdt F)"
  proof (cases "runOnFunction id pdt F")
    case None
    then show ?thesis using 1 2 by simp
  next
    case (Some c)
    then show ?thesis using 1 2 round_trip [of c] by simp
  qed
  have 4: "inj_on (\<lambda>p. alloc2 (inv alloc1 p)) (range alloc1)"
  proof (rule inj_onI)
    fix x y
    assume "x \<in> range alloc1" and "y \<in> range alloc1"
      and eq: "alloc2 (inv alloc1 x) = alloc2 (inv alloc1 y)"
    then obtain i j where ij: "x = alloc1 i" "y = alloc1 j" by blast
    have "alloc2 i = alloc2 j"
      using eq assms(1) by (simp add: ij)
    then have "i = j" using assms(2) by (simp add: inj_eq)
    then show "x = y" by (simp add: ij)
  qed
  show ?thesis
    by (intro conjI 1 2 3 4)
qed

theorem construction_deterministic_witness:
  "runOnFunction Suc diamond_pdt diamond_cfg = Some (rename_graph Suc diamond_compacted)
   \<and> runOnFunction (\<lambda>k. 2 * k + 7) diamond_pdt diamond_cfg
       = map_option (rename_graph (\<lambda>p. 2 * inv Suc p + 7)) (runOnFunction Suc diamond_pdt diamond_cfg)"
proof -
  have i1: "inj Suc" by simp
  have i2: "inj (\<lambda>k :: nat. 2 * k + 7)" by (simp add: inj_on_def)
  note T = construction_deterministic [OF i1 i2, of diamond_pdt diamond_cfg]
  have a: "runOnFunction Suc diamond_pdt diamond_cfg = Some (rename_graph Suc diamond_compacted)"
    using T by (simp add: diamond_run)
  have b: "runOnFunction (\<lambda>k. 2 * k + 7) diamond_pdt diamond_cfg
       = map_option (rename_graph (\<lambda>p. 2 * inv Suc p + 7)) (runOnFunction Suc diamond_pdt diamond_cfg)"
    using T by blast
  show ?thesis
    by (intro conjI a b)
qed

end
